theory Spec2Isabelle
  imports Main
begin

unbundle bit_operations_syntax

section \<open>The hypercube token ring: a shallow embedding of hypercube.c\<close>

text \<open>
  The program builds \<open>n * 2 ^ n\<close> pipes, forks \<open>2 ^ n\<close> workers, one per vertex of the
  \<open>n\<close>-dimensional hypercube, and lets a token (an \<open>int\<close>) travel between neighbouring
  workers. The parent (the coordinator) relays signals to the workers and waits for them.

  Conventions of the embedding:
  \<^item> a C \<open>int\<close> is an \<open>int\<close> of HOL, and every arithmetic result that can leave the 32-bit
    range is passed through \<open>wrap32\<close> (two's complement wrap-around);
  \<^item> a file descriptor and a process id are \<open>int\<close>s, as in C;
  \<^item> every \<open>exit(EXIT_FAILURE)\<close>, every trap and every access outside an allocated array
    is a value of the type \<open>error\<close>;
  \<^item> what the operating system decides (the result of \<open>pipe\<close>, \<open>fork\<close>, \<open>fopen\<close>,
    \<open>select\<close>, \<open>rand\<close>, \<open>gettimeofday\<close>, \<open>waitpid\<close>) is an argument of the function
    that makes the call;
  \<^item> the text printed on the standard output is not modelled; the text written to the
    log file is.
\<close>

subsection \<open>Machine integers\<close>

definition wrap32 :: "int \<Rightarrow> int" where
  "wrap32 x = (x + 2 ^ 31) mod 2 ^ 32 - 2 ^ 31"

text \<open>
  \<open>x << k\<close> on an \<open>int\<close>. The shift count is taken modulo 32, as the x86 shift
  instruction does; C leaves counts outside \<open>0..31\<close> undefined.
\<close>

definition shl32 :: "int \<Rightarrow> int \<Rightarrow> int" where
  "shl32 x k = wrap32 (x * 2 ^ nat (k mod 32))"

text \<open>\<open>!x\<close> of C.\<close>

definition lnot :: "int \<Rightarrow> int" where
  "lnot x = (if x = 0 then 1 else 0)"

text \<open>\<open>a % b\<close> of C for \<open>b \<noteq> 0\<close>: the remainder of the division that truncates.\<close>

definition c_rem :: "int \<Rightarrow> int \<Rightarrow> int" where
  "c_rem a b = a - b * (sgn a * sgn b * (\<bar>a\<bar> div \<bar>b\<bar>))"

datatype error =
    UsageError          \<comment> \<open>\<open>argc != 2\<close>: \<open>main\<close> returns 1\<close>
  | PipeFailed          \<comment> \<open>\<open>pipe\<close> returned -1\<close>
  | ForkFailed          \<comment> \<open>\<open>fork\<close> returned -1\<close>
  | FopenFailed         \<comment> \<open>\<open>fopen\<close> returned NULL\<close>
  | WriteFailed         \<comment> \<open>\<open>write\<close> returned -1\<close>
  | ReadFailed          \<comment> \<open>\<open>read\<close> did not return \<open>sizeof(token)\<close>\<close>
  | DivisionByZero      \<comment> \<open>\<open>rand() % 0\<close>: the process is killed by SIGFPE\<close>
  | OutOfBounds         \<comment> \<open>an access outside an allocated array\<close>

subsection \<open>The coordinator's signal handling\<close>

datatype signal = SIGINT | SIGUSR1 | SIGSTOP | SIGCONT | SIGTERM

datatype disposition = SIG_DFL | Handler

text \<open>
  The globals of hypercube.c that the parent uses, with what the kernel keeps for it:
  the disposition of each signal, the journal of the \<open>kill\<close> calls it made, its open
  file descriptors, its terminated children not yet waited for (\<open>zombies\<close>) and the
  children it has waited for (\<open>reaped\<close>). \<open>alive\<close> is false once the default action of
  a signal has terminated the process.
\<close>

record coordinator =
  nbProcesses :: int
  nbPipes :: int
  childs :: "int list"
  pipes :: "(int \<times> int) list"
  n_sigusr1 :: int
  dispositions :: "signal \<Rightarrow> disposition"
  kills :: "(int \<times> signal) list"
  parent_fds :: "int list"
  zombies :: "int list"
  reaped :: "int list"
  alive :: bool

text \<open>
  \<open>for (int i = 0; i < nbProcesses; i++) kill(childs[i], sig);\<close>
  The result of \<open>kill\<close> is not looked at. \<open>childs\<close> has \<open>nbProcesses\<close> cells.
\<close>

definition kill_childs :: "signal \<Rightarrow> coordinator \<Rightarrow> coordinator" where
  "kill_childs sig s =
     s\<lparr>kills := kills s @ map (\<lambda>i. (childs s ! i, sig)) [0..<nat (nbProcesses s)]\<rparr>"

definition handler :: "signal \<Rightarrow> coordinator \<Rightarrow> coordinator" where
  "handler signum s =
     (if signum = SIGUSR1 then
        (let s1 = (if n_sigusr1 s \<noteq> 0 then kill_childs SIGSTOP s else kill_childs SIGCONT s)
         in s1\<lparr>n_sigusr1 := lnot (n_sigusr1 s1)\<rparr>)
      else if signum = SIGINT then kill_childs SIGINT s
      else s)"

text \<open>
  The workers are suspended exactly when the flag is 0: it starts at 1, and a toggle
  that finds it non-zero stops the workers.
\<close>

definition paused :: "coordinator \<Rightarrow> bool" where
  "paused s = (n_sigusr1 s = 0)"

text \<open>The array \<open>childs\<close> holds one process id per worker.\<close>

definition registered :: "coordinator \<Rightarrow> bool" where
  "registered s = (length (childs s) = nat (nbProcesses s))"

text \<open>
  Delivery of a signal to the parent: the installed handler runs, or the default action
  is taken. The default action of SIGINT, SIGUSR1 and SIGTERM terminates the process;
  SIGSTOP and SIGCONT do not end it.
\<close>

definition deliver :: "signal \<Rightarrow> coordinator \<Rightarrow> coordinator" where
  "deliver sig s =
     (if \<not> alive s then s
      else if dispositions s sig = Handler then handler sig s
      else if sig = SIGSTOP \<or> sig = SIGCONT then s
      else s\<lparr>alive := False\<rparr>)"

text \<open>\<open>signal(SIGUSR1, handler);\<close> the only call of \<open>signal\<close> in the program.\<close>

definition install_handlers :: "coordinator \<Rightarrow> coordinator" where
  "install_handlers s = s\<lparr>dispositions := (dispositions s)(SIGUSR1 := Handler)\<rparr>"

subsection \<open>The kernel: descriptors and process ids\<close>

text \<open>
  \<open>pipe\<close> hands out the two lowest unused descriptors. The program opens nothing else
  and closes nothing before the last \<open>pipe\<close> call, so the unused descriptors are those from
  \<open>next_fd\<close> on; the call fails when the table of the process (\<open>fd_limit\<close>) is full.
  \<open>fork\<close> hands out a fresh process id and fails when no process is left.
\<close>

record kernel =
  next_fd :: int
  fd_limit :: int
  next_pid :: int
  procs_left :: nat

definition pipe_sys :: "kernel \<Rightarrow> (int \<times> int) option \<times> kernel" where
  "pipe_sys k =
     (if next_fd k + 2 \<le> fd_limit k
      then (Some (next_fd k, next_fd k + 1), k\<lparr>next_fd := next_fd k + 2\<rparr>)
      else (None, k))"

definition fork_sys :: "kernel \<Rightarrow> int option \<times> kernel" where
  "fork_sys k =
     (case procs_left k of
        0 \<Rightarrow> (None, k)
      | Suc m \<Rightarrow> (Some (next_pid k), k\<lparr>next_pid := next_pid k + 1, procs_left := m\<rparr>))"

text \<open>
  A kernel as \<open>main\<close> finds it: the descriptors 0, 1 and 2 are open, 1024 descriptors
  and 100 more processes are allowed.
\<close>

definition kernel0 :: kernel where
  "kernel0 = \<lparr>next_fd = 3, fd_limit = 1024, next_pid = 101, procs_left = 100\<rparr>"

text \<open>The globals when \<open>main\<close> starts, with the three standard descriptors open.\<close>

definition globals0 :: coordinator where
  "globals0 =
     \<lparr>nbProcesses = 0, nbPipes = 0, childs = [], pipes = [], n_sigusr1 = 1,
      dispositions = (\<lambda>_. SIG_DFL), kills = [], parent_fds = [0, 1, 2],
      zombies = [], reaped = [], alive = True\<rparr>"

subsection \<open>createPipes\<close>

text \<open>
  \<open>for (int i = 0; i < nbPipes; i++)\<close> runs \<open>nat nbPipes\<close> times (not at all when
  \<open>nbPipes\<close> is negative); \<open>pipes[i]\<close> is the pair (read end, write end).
\<close>

fun createPipes_loop :: "nat \<Rightarrow> coordinator \<times> kernel \<Rightarrow> error + coordinator \<times> kernel" where
  "createPipes_loop 0 (s, k) = Inr (s, k)"
| "createPipes_loop (Suc m) (s, k) =
     (case pipe_sys k of
        (None, k') \<Rightarrow> Inl PipeFailed
      | (Some (r, w), k') \<Rightarrow>
          createPipes_loop m
            (s\<lparr>pipes := pipes s @ [(r, w)], parent_fds := parent_fds s @ [r, w]\<rparr>, k'))"

definition createPipes :: "int \<Rightarrow> coordinator \<times> kernel \<Rightarrow> error + coordinator \<times> kernel" where
  "createPipes n sk =
     (case sk of (s, k) \<Rightarrow>
        (let s1 = s\<lparr>nbPipes := wrap32 (shl32 1 n * n), pipes := []\<rparr>
         in createPipes_loop (nat (nbPipes s1)) (s1, k)))"

subsection \<open>createProcesses: the child\<close>

text \<open>
  What a worker keeps after the fork: the array \<open>connectedPipes\<close> and its open
  descriptors. \<open>close\<close> removes a descriptor; closing one that is not open changes nothing.
\<close>

record worker_fds =
  connectedPipes :: "int list"
  open_fds :: "int list"

definition close_fd :: "int \<Rightarrow> int list \<Rightarrow> int list" where
  "close_fd fd fds = removeAll fd fds"

text \<open>\<open>pipes[k]\<close>, with the access outside the \<open>nbPipes\<close> cells written out.\<close>

definition pipe_at :: "(int \<times> int) list \<Rightarrow> int \<Rightarrow> error + int \<times> int" where
  "pipe_at ps k = (if 0 \<le> k \<and> k < int (length ps) then Inr (ps ! nat k) else Inl OutOfBounds)"

text \<open>
  Lines 96 to 107, for the remaining dimensions \<open>j\<close> in order. The cells \<open>2*j\<close> and
  \<open>2*j + 1\<close> of \<open>connectedPipes\<close> are written for \<open>j = 0, 1, ...\<close>, so the array grows
  at its end.
\<close>

fun connect_loop :: "int \<Rightarrow> int \<Rightarrow> (int \<times> int) list \<Rightarrow> int list \<Rightarrow> worker_fds \<Rightarrow> error + worker_fds" where
  "connect_loop n i ps [] c = Inr c"
| "connect_loop n i ps (j # js) c =
     (let neighbour = i XOR shl32 1 j in
      case pipe_at ps (wrap32 (wrap32 (i * n) + j)) of
        Inl e \<Rightarrow> Inl e
      | Inr own \<Rightarrow>
          (case pipe_at ps (wrap32 (wrap32 (neighbour * n) + j)) of
             Inl e \<Rightarrow> Inl e
           | Inr nb \<Rightarrow>
               connect_loop n i ps js
                 (c\<lparr>connectedPipes := connectedPipes c @ [fst own, snd nb],
                    open_fds := close_fd (fst nb) (close_fd (snd own) (open_fds c))\<rparr>)))"

text \<open>
  Lines 110 to 128: a pipe is closed, both ends, unless one of its ends is among the
  first \<open>n * 2\<close> cells of \<open>connectedPipes\<close>.
\<close>

definition needClose :: "int \<Rightarrow> int list \<Rightarrow> int \<times> int \<Rightarrow> bool" where
  "needClose n cp p = (\<not> list_ex (\<lambda>c. fst p = c \<or> snd p = c) (take (nat (wrap32 (n * 2))) cp))"

definition sweep :: "int \<Rightarrow> (int \<times> int) list \<Rightarrow> worker_fds \<Rightarrow> worker_fds" where
  "sweep n ps c =
     c\<lparr>open_fds :=
         fold (\<lambda>p fds. if needClose n (connectedPipes c) p
                        then close_fd (snd p) (close_fd (fst p) fds) else fds)
           ps (open_fds c)\<rparr>"

text \<open>
  The child forked for vertex \<open>i\<close>, up to the call of \<open>passToken\<close>. It starts from the
  globals and the descriptors of the parent as \<open>createPipes\<close> left them: the parent
  closes its descriptors only after the last fork.
\<close>

definition child_setup :: "int \<Rightarrow> int \<Rightarrow> coordinator \<Rightarrow> error + worker_fds" where
  "child_setup n i s =
     (case connect_loop n i (pipes s) (map int [0..<nat n])
             \<lparr>connectedPipes = [], open_fds = parent_fds s\<rparr> of
        Inl e \<Rightarrow> Inl e
      | Inr c \<Rightarrow> Inr (sweep n (pipes s) c))"

subsection \<open>createProcesses: the parent\<close>

fun fork_loop :: "nat \<Rightarrow> coordinator \<times> kernel \<Rightarrow> error + coordinator \<times> kernel" where
  "fork_loop 0 (s, k) = Inr (s, k)"
| "fork_loop (Suc m) (s, k) =
     (case fork_sys k of
        (None, k') \<Rightarrow> Inl ForkFailed
      | (Some pid, k') \<Rightarrow> fork_loop m (s\<lparr>childs := childs s @ [pid]\<rparr>, k'))"

definition close_all_pipes :: "coordinator \<Rightarrow> coordinator" where
  "close_all_pipes s =
     s\<lparr>parent_fds := fold (\<lambda>p fds. close_fd (snd p) (close_fd (fst p) fds)) (pipes s) (parent_fds s)\<rparr>"

text \<open>Lines 78 to 159 in the parent: the forks, the handler, the descriptors.\<close>

definition createProcesses_spawn :: "int \<Rightarrow> coordinator \<times> kernel \<Rightarrow> error + coordinator \<times> kernel" where
  "createProcesses_spawn n sk =
     (case sk of (s, k) \<Rightarrow>
        (let s1 = s\<lparr>nbProcesses := shl32 1 n, childs := []\<rparr>
         in case fork_loop (nat (nbProcesses s1)) (s1, k) of
              Inl e \<Rightarrow> Inl e
            | Inr (s2, k2) \<Rightarrow> Inr (close_all_pipes (install_handlers s2), k2)))"

subsection \<open>waitChild\<close>

text \<open>
  What happens to the parent while it is blocked in \<open>waitpid\<close>: a child terminates, or a
  signal arrives. \<open>waitpid(pid, &state, 0)\<close> returns at once when the child has already
  terminated (the child is then waited for), and at once, with -1 and \<open>ECHILD\<close>, when the
  child has been waited for before; otherwise it sleeps. The handler has been installed
  by \<open>signal\<close>, which on the platform of the program (the C library of Linux, and the
  BSD systems) installs it with \<open>SA_RESTART\<close>: when a signal arrives whose handler runs,
  the kernel starts the interrupted call again, so that the call goes on sleeping for the
  same child. A signal whose default action is taken ends the process or leaves the call
  asleep. The result is \<open>None\<close> when the events end while the call still sleeps.
\<close>

datatype wait_event = Exits int | Arrives signal

fun waitpid :: "int \<Rightarrow> wait_event list \<Rightarrow> coordinator \<Rightarrow> (coordinator \<times> wait_event list) option" where
  "waitpid pid [] s =
     (if pid \<in> set (reaped s) then Some (s, [])
      else if pid \<in> set (zombies s)
      then Some (s\<lparr>zombies := removeAll pid (zombies s), reaped := reaped s @ [pid]\<rparr>, [])
      else None)"
| "waitpid pid (ev # evs) s =
     (if pid \<in> set (reaped s) then Some (s, ev # evs)
      else if pid \<in> set (zombies s)
      then Some (s\<lparr>zombies := removeAll pid (zombies s), reaped := reaped s @ [pid]\<rparr>, ev # evs)
      else (case ev of
              Exits p \<Rightarrow> waitpid pid evs (s\<lparr>zombies := zombies s @ [p]\<rparr>)
            | Arrives sig \<Rightarrow>
                (let s1 = deliver sig s in
                 if \<not> alive s1 then Some (s1, evs)
                 else waitpid pid evs s1)))"

text \<open>
  \<open>for (int i = 0; i < nbProcesses; i++) waitpid(childs[i], &state, 0);\<close>
  The result of \<open>waitpid\<close> is not looked at, and there is no second call for the same
  child. The loop ends early only when the process itself has been terminated.
\<close>

fun waitChild_loop :: "int list \<Rightarrow> wait_event list \<Rightarrow> coordinator \<Rightarrow> coordinator option" where
  "waitChild_loop [] evs s = Some s"
| "waitChild_loop (pid # pids) evs s =
     (case waitpid pid evs s of
        None \<Rightarrow> None
      | Some (s1, evs1) \<Rightarrow> if alive s1 then waitChild_loop pids evs1 s1 else Some s1)"

definition waitChild :: "wait_event list \<Rightarrow> coordinator \<Rightarrow> coordinator option" where
  "waitChild evs s =
     waitChild_loop (map (\<lambda>i. childs s ! i) [0..<nat (nbProcesses s)]) evs s"

definition freeMemory :: "coordinator \<Rightarrow> coordinator" where
  "freeMemory s = s\<lparr>pipes := [], childs := []\<rparr>"

text \<open>
  \<open>createProcesses\<close> in the parent: \<open>None\<close> when it waits for ever, an error when a fork
  fails, the globals at the end otherwise.
\<close>

definition createProcesses ::
  "int \<Rightarrow> wait_event list \<Rightarrow> coordinator \<times> kernel \<Rightarrow> (error + coordinator \<times> kernel) option" where
  "createProcesses n evs sk =
     (case createProcesses_spawn n sk of
        Inl e \<Rightarrow> Some (Inl e)
      | Inr (s1, k1) \<Rightarrow>
          (case waitChild evs s1 of
             None \<Rightarrow> None
           | Some s2 \<Rightarrow> Some (Inr (if alive s2 then freeMemory s2 else s2, k1))))"

subsection \<open>main\<close>

text \<open>
  \<open>atoi\<close> of the C library: white space, an optional sign, then the decimal digits up to
  the first character that is not one; 0 when there is no digit.
\<close>

definition is_space :: "char \<Rightarrow> bool" where
  "is_space c = (c \<in> set [CHR '' '', CHR 0x09, CHR 0x0A, CHR 0x0B, CHR 0x0C, CHR 0x0D])"

definition is_digit :: "char \<Rightarrow> bool" where
  "is_digit c = (48 \<le> (of_char c :: nat) \<and> (of_char c :: nat) \<le> 57)"

fun digits_val :: "int \<Rightarrow> string \<Rightarrow> int" where
  "digits_val acc [] = acc"
| "digits_val acc (c # cs) =
     (if is_digit c then digits_val (acc * 10 + (int (of_char c) - 48)) cs else acc)"

definition atoi :: "string \<Rightarrow> int" where
  "atoi str =
     (case dropWhile is_space str of
        [] \<Rightarrow> 0
      | c # cs \<Rightarrow>
          if c = CHR ''-'' then wrap32 (- digits_val 0 cs)
          else if c = CHR ''+'' then wrap32 (digits_val 0 cs)
          else wrap32 (digits_val 0 (c # cs)))"

text \<open>
  \<open>main\<close> in the parent: \<open>argv\<close> holds the program name and the arguments. There is no
  check on \<open>n\<close> between \<open>atoi\<close> and the two calls.
\<close>

definition main ::
  "string list \<Rightarrow> wait_event list \<Rightarrow> kernel \<Rightarrow> (error + coordinator \<times> kernel) option" where
  "main argv evs k =
     (if length argv \<noteq> 2 then Some (Inl UsageError)
      else (let n = atoi (argv ! 1) in
            case createPipes n (globals0, k) of
              Inl e \<Rightarrow> Some (Inl e)
            | Inr sk \<Rightarrow> createProcesses n evs sk))"

subsection \<open>The log file of a worker\<close>

text \<open>\<open>%d\<close> of \<open>printf\<close>.\<close>

definition digit_char :: "nat \<Rightarrow> char" where
  "digit_char d = ''0123456789'' ! d"

fun show_nat :: "nat \<Rightarrow> string" where
  "show_nat m = (if m < 10 then [digit_char m] else show_nat (m div 10) @ [digit_char (m mod 10)])"

declare show_nat.simps [simp del]

definition show_int :: "int \<Rightarrow> string" where
  "show_int i = (if i < 0 then CHR ''-'' # show_nat (nat (- i)) else show_nat (nat i))"

text \<open>
  \<open>intToBinary\<close>: the loop runs \<open>i\<close> from \<open>n - 1\<close> down to 0, writes \<open>binary[i]\<close> from the
  lowest bit of \<open>num\<close> and shifts \<open>num\<close> to the right; the characters written so far are
  those of the cells \<open>i + 1\<close> to \<open>n - 1\<close>. For a negative \<open>n\<close> the terminating zero
  \<open>binary[n]\<close> is written outside the block.
\<close>

fun intToBinary_loop :: "nat \<Rightarrow> int \<Rightarrow> string \<Rightarrow> string" where
  "intToBinary_loop 0 num binary = binary"
| "intToBinary_loop (Suc i) num binary =
     intToBinary_loop i (drop_bit 1 num)
       ((if num AND 1 \<noteq> 0 then CHR ''1'' else CHR ''0'') # binary)"

definition intToBinary :: "int \<Rightarrow> int \<Rightarrow> error + string" where
  "intToBinary num n = (if n < 0 then Inl OutOfBounds else Inr (intToBinary_loop (nat n) num []))"

text \<open>
  Lines 188 to 198: the directory name, the number of bytes asked from \<open>malloc\<close>
  (\<open>snprintf\<close> returns the length of the text it would write) and the text that
  \<open>sprintf\<close> writes into the block, to which C adds the terminating zero.
\<close>

definition dirName :: "int \<Rightarrow> string" where
  "dirName n = show_int n"

definition filename_alloc :: "int \<Rightarrow> string \<Rightarrow> int" where
  "filename_alloc n binaryString = int (length (dirName n @ ''/'' @ binaryString)) + 1"

definition filename_text :: "int \<Rightarrow> string \<Rightarrow> string" where
  "filename_text n binaryString = dirName n @ ''/'' @ binaryString @ ''.txt''"

text \<open>The three \<open>fprintf\<close> calls on the log file.\<close>

datatype logline =
    Seed int          \<comment> \<open>\<open>"token: %d\n"\<close>\<close>
  | First int         \<comment> \<open>\<open>"first received token: %d\n"\<close>\<close>
  | Later int int     \<comment> \<open>\<open>"Token: %d, Time : %ld\n"\<close>\<close>

fun render :: "logline \<Rightarrow> string" where
  "render (Seed t) = ''token: '' @ show_int t @ [CHR 0x0A]"
| "render (First t) = ''first received token: '' @ show_int t @ [CHR 0x0A]"
| "render (Later t us) = ''Token: '' @ show_int t @ '', Time : '' @ show_int us @ [CHR 0x0A]"

fun logged :: "logline \<Rightarrow> int" where
  "logged (Seed t) = t"
| "logged (First t) = t"
| "logged (Later t us) = t"

subsection \<open>passToken\<close>

record timeval =
  tv_sec :: int
  tv_usec :: int

datatype phase =
    NotStarted        \<comment> \<open>forked, \<open>passToken\<close> not yet entered\<close>
  | Waiting           \<comment> \<open>at the \<open>select\<close> of the loop\<close>
  | Finished          \<comment> \<open>\<open>select\<close> did not return a positive count: the loop is left\<close>
  | Dead error        \<comment> \<open>the process has ended on an error\<close>

record worker =
  token :: int
  start :: timeval
  logfile :: "logline list"
  filename_bytes :: int
  filename :: string
  pc :: phase

definition text_of :: "worker \<Rightarrow> string" where
  "text_of w = concat (map render (logfile w))"

definition worker0 :: worker where
  "worker0 = \<lparr>token = 0, start = \<lparr>tv_sec = 0, tv_usec = 0\<rparr>, logfile = [],
      filename_bytes = 0, filename = [], pc = NotStarted\<rparr>"

text \<open>
  The pipes of the kernel, as the workers see them: \<open>q fd\<close> is the sequence of tokens
  written to the pipe whose read end is \<open>fd\<close> and not yet read. \<open>write\<close> on a descriptor
  that is the write end of a pipe of the table appends to that pipe, and fails on any
  other descriptor. \<open>read\<close> takes the oldest token, and returns 0 on a pipe that holds
  none (the pipe is at its end: \<open>select\<close> reports a descriptor as readable when it holds
  data or is at its end).
\<close>

type_synonym queues = "int \<Rightarrow> int list"

definition write_sys :: "(int \<times> int) list \<Rightarrow> queues \<Rightarrow> int \<Rightarrow> int \<Rightarrow> queues option" where
  "write_sys ps q fd v =
     (case map_of (map (\<lambda>p. (snd p, fst p)) ps) fd of
        None \<Rightarrow> None
      | Some r \<Rightarrow> Some (q(r := q r @ [v])))"

text \<open>
  The descriptor read for dimension \<open>i\<close> is \<open>connectedPipes[2*i]\<close>, the descriptor
  written for dimension \<open>i\<close> is \<open>connectedPipes[2*i + 1]\<close>. The caller passes an array of
  \<open>2 * n\<close> cells.
\<close>

definition recv_fd :: "int list \<Rightarrow> nat \<Rightarrow> int" where
  "recv_fd cp i = cp ! (2 * i)"

definition send_fd :: "int list \<Rightarrow> nat \<Rightarrow> int" where
  "send_fd cp i = cp ! (2 * i + 1)"

text \<open>
  \<open>pipe_index = rand() % n\<close>, with the trap of the division by zero written out.
\<close>

definition choose_neighbour :: "int \<Rightarrow> int \<Rightarrow> error + int" where
  "choose_neighbour rnd n = (if n = 0 then Inl DivisionByZero else Inr (c_rem rnd n))"

text \<open>
  Lines 185 to 225: the file is opened (\<open>fopen_ok\<close> tells whether \<open>fopen\<close> succeeds),
  and vertex 0 (\<open>ident = 0\<close>, the parameter \<open>id\<close> of the source) creates the token. \<open>rnd\<close> is the value of \<open>rand()\<close>, \<open>now\<close> the time
  that \<open>gettimeofday\<close> gives.
\<close>

definition passToken_start ::
  "int \<Rightarrow> int list \<Rightarrow> int \<Rightarrow> (int \<times> int) list \<Rightarrow> bool \<Rightarrow> int \<Rightarrow> timeval \<Rightarrow> queues \<Rightarrow> worker \<times> queues" where
  "passToken_start ident cp n ps fopen_ok rnd now q =
     (let w = worker0 in
      case intToBinary ident n of
        Inl e \<Rightarrow> (w\<lparr>pc := Dead e\<rparr>, q)
      | Inr binaryString \<Rightarrow>
          (let w0 = w\<lparr>filename_bytes := filename_alloc n binaryString,
                     filename := filename_text n binaryString\<rparr> in
           if \<not> fopen_ok then (w0\<lparr>pc := Dead FopenFailed\<rparr>, q)
           else if ident = 0 then
             (let w1 = w0\<lparr>start := now, token := wrap32 (token w0 + 1)\<rparr> in
              case choose_neighbour rnd n of
                Inl e \<Rightarrow> (w1\<lparr>pc := Dead e\<rparr>, q)
              | Inr pipe_index \<Rightarrow>
                  (let w2 = w1\<lparr>logfile := logfile w1 @ [Seed (token w1)]\<rparr> in
                   case write_sys ps q (send_fd cp (nat pipe_index)) (token w2) of
                     None \<Rightarrow> (w2\<lparr>pc := Dead WriteFailed\<rparr>, q)
                   | Some q1 \<Rightarrow> (w2\<lparr>pc := Waiting\<rparr>, q1)))
           else (w0\<lparr>pc := Waiting\<rparr>, q)))"

text \<open>
  Lines 229 to 239: the dimensions \<open>i\<close> in order; \<open>readfds\<close> is the set that \<open>select\<close>
  has left. Every read stores into the one variable \<open>token\<close>.
\<close>

fun drain :: "int list \<Rightarrow> nat list \<Rightarrow> int list \<Rightarrow> queues \<Rightarrow> int \<Rightarrow> (error + int) \<times> queues" where
  "drain cp [] readfds q t = (Inr t, q)"
| "drain cp (i # is) readfds q t =
     (if recv_fd cp i \<in> set readfds then
        (case q (recv_fd cp i) of
           [] \<Rightarrow> (Inl ReadFailed, q)
         | x # xs \<Rightarrow> drain cp is readfds (q(recv_fd cp i := xs)) x)
      else drain cp is readfds q t)"

text \<open>
  The dimensions, among \<open>js\<close>, whose read end is in the set that \<open>select\<close> has left:
  those for which \<open>FD_ISSET\<close> holds in the loop of line 229.
\<close>

definition ready_dims :: "int list \<Rightarrow> int list \<Rightarrow> nat list \<Rightarrow> nat list" where
  "ready_dims cp readfds js = filter (\<lambda>i. recv_fd cp i \<in> set readfds) js"

text \<open>
  One turn of the loop of lines 227 to 267, from the return of \<open>select\<close> to the next
  call of \<open>select\<close>. \<open>select\<close> watches the descriptors \<open>connectedPipes[2*i]\<close> and
  returns a positive count exactly when one of them is in the set it leaves.
\<close>

definition passToken_round ::
  "int list \<Rightarrow> int \<Rightarrow> (int \<times> int) list \<Rightarrow> int list \<Rightarrow> int \<Rightarrow> timeval \<Rightarrow> worker \<times> queues \<Rightarrow> worker \<times> queues" where
  "passToken_round cp n ps readfds rnd now wq =
     (case wq of (w, q) \<Rightarrow>
        if \<not> list_ex (\<lambda>i. recv_fd cp i \<in> set readfds) [0..<nat n] then (w\<lparr>pc := Finished\<rparr>, q)
        else
          (case drain cp [0..<nat n] readfds q (token w) of
             (Inl e, q1) \<Rightarrow> (w\<lparr>pc := Dead e\<rparr>, q1)
           | (Inr t, q1) \<Rightarrow>
               (let t1 = wrap32 (t + 1);
                    w1 = (if tv_sec (start w) = 0
                          then w\<lparr>token := t1, start := now, logfile := logfile w @ [First t1]\<rparr>
                          else w\<lparr>token := t1, start := now,
                                 logfile := logfile w @
                                   [Later t1 ((tv_sec now - tv_sec (start w)) * 1000000
                                              + (tv_usec now - tv_usec (start w)))]\<rparr>)
                in case choose_neighbour rnd n of
                     Inl e \<Rightarrow> (w1\<lparr>pc := Dead e\<rparr>, q1)
                   | Inr pipe_index \<Rightarrow>
                       (case write_sys ps q1 (send_fd cp (nat pipe_index)) t1 of
                          None \<Rightarrow> (w1\<lparr>pc := Dead WriteFailed\<rparr>, q1)
                        | Some q2 \<Rightarrow> (w1, q2)))))"

subsection \<open>The workers together\<close>

text \<open>
  The \<open>2 ^ n\<close> workers and the pipes between them. An event is one worker entering
  \<open>passToken\<close>, or one worker returning from \<open>select\<close> and running one turn of its loop;
  the scheduler, \<open>select\<close>, \<open>rand\<close> and the clock choose the events. An event of a
  worker that is not at that point of its program cannot happen.
\<close>

record network =
  dim :: int
  table :: "(int \<times> int) list"
  wiring :: "nat \<Rightarrow> int list"
  workers :: "nat \<Rightarrow> worker"
  inflight :: queues

datatype event =
    Enter nat bool int timeval
  | Turn nat "int list" int timeval

definition net_step :: "network \<Rightarrow> event \<Rightarrow> network option" where
  "net_step c ev =
     (case ev of
        Enter v fopen_ok rnd now \<Rightarrow>
          if pc (workers c v) = NotStarted \<and> int v < shl32 1 (dim c) then
            (case passToken_start (int v) (wiring c v) (dim c) (table c) fopen_ok rnd now (inflight c) of
               (w, q) \<Rightarrow> Some (c\<lparr>workers := (workers c)(v := w), inflight := q\<rparr>))
          else None
      | Turn v readfds rnd now \<Rightarrow>
          if pc (workers c v) = Waiting then
            (case passToken_round (wiring c v) (dim c) (table c) readfds rnd now
                    (workers c v, inflight c) of
               (w, q) \<Rightarrow> Some (c\<lparr>workers := (workers c)(v := w), inflight := q\<rparr>))
          else None)"

fun run :: "network \<Rightarrow> event list \<Rightarrow> network option" where
  "run c [] = Some c"
| "run c (ev # evs) = (case net_step c ev of None \<Rightarrow> None | Some c1 \<Rightarrow> run c1 evs)"

text \<open>
  The network that \<open>createProcesses\<close> forks from the globals \<open>s\<close> left by
  \<open>createPipes\<close>: worker \<open>v\<close> holds the array that \<open>child_setup\<close> gives it (none when
  the child has ended on an error before \<open>passToken\<close>).
\<close>

definition network_of :: "int \<Rightarrow> coordinator \<Rightarrow> network" where
  "network_of n s =
     \<lparr>dim = n, table = pipes s,
      wiring = (\<lambda>v. case child_setup n (int v) s of Inl e \<Rightarrow> [] | Inr c \<Rightarrow> connectedPipes c),
      workers = (\<lambda>v. case child_setup n (int v) s of
                       Inl e \<Rightarrow> worker0\<lparr>pc := Dead e\<rparr> | Inr c \<Rightarrow> worker0),
      inflight = (\<lambda>_. [])\<rparr>"

text \<open>
  The globals after \<open>createPipes(1)\<close> on \<open>kernel0\<close>: two pipes, with the descriptors
  3 to 6.
\<close>

definition globals1 :: coordinator where
  "globals1 = globals0\<lparr>nbPipes := 2, pipes := [(3, 4), (5, 6)], parent_fds := [0, 1, 2, 3, 4, 5, 6]\<rparr>"

text \<open>
  The globals after \<open>createPipes(2)\<close> on \<open>kernel0\<close>: eight pipes, with the
  descriptors 3 to 18. Vertex 0 then gets the array \<open>[3, 8, 5, 14]\<close>.
\<close>

definition globals2 :: coordinator where
  "globals2 =
     globals0\<lparr>nbPipes := 8,
       pipes := [(3, 4), (5, 6), (7, 8), (9, 10), (11, 12), (13, 14), (15, 16), (17, 18)],
       parent_fds := [0, 1, 2, 3, 4, 5, 6, 7, 8, 9, 10, 11, 12, 13, 14, 15, 16, 17, 18]\<rparr>"

text \<open>
  The descriptors that \<open>pipe_sys\<close> gives to the \<open>k\<close>-th pipe created from a kernel
  whose next free descriptor is \<open>f\<close>.
\<close>

definition read_end :: "int \<Rightarrow> int \<Rightarrow> int" where
  "read_end f k = f + 2 * k"

definition write_end :: "int \<Rightarrow> int \<Rightarrow> int" where
  "write_end f k = f + 2 * k + 1"

text \<open>
  The table that \<open>m\<close> successful calls of \<open>pipe\<close> build from a kernel whose next free
  descriptor is \<open>f\<close>.
\<close>

definition table_of :: "int \<Rightarrow> nat \<Rightarrow> (int \<times> int) list" where
  "table_of f m = map (\<lambda>p. (read_end f (int p), write_end f (int p))) [0..<m]"

text \<open>
  The ends of pipes of the table that a worker holds open.
\<close>

definition read_ends_held :: "coordinator \<Rightarrow> worker_fds \<Rightarrow> int set" where
  "read_ends_held s c = set (open_fds c) \<inter> fst ` set (pipes s)"

definition write_ends_held :: "coordinator \<Rightarrow> worker_fds \<Rightarrow> int set" where
  "write_ends_held s c = set (open_fds c) \<inter> snd ` set (pipes s)"

text \<open>
  No token in any pipe; and the invariant of the runs: the log of every worker is
  strictly increasing and bounded by its counter, at most one token is in a pipe, that
  token is at least every counter, and nothing has moved before vertex 0 has entered
  \<open>passToken\<close>. \<open>B\<close> bounds every counter.
\<close>

definition quiet :: queues where
  "quiet = (\<lambda>_. [])"

definition token_invariant :: "int \<Rightarrow> network \<Rightarrow> bool" where
  "token_invariant B c \<longleftrightarrow>
     (\<forall>v. sorted_wrt (<) (map logged (logfile (workers c v))) \<and>
          (\<forall>l\<in>set (logfile (workers c v)). logged l \<le> token (workers c v)) \<and>
          0 \<le> token (workers c v) \<and> token (workers c v) \<le> B) \<and>
     (inflight c = quiet \<or>
      (\<exists>r m. inflight c = quiet(r := [m]) \<and> (\<forall>v. token (workers c v) \<le> m) \<and> m \<le> B)) \<and>
     (pc (workers c 0) = NotStarted \<longrightarrow>
        inflight c = quiet \<and> (\<forall>v. token (workers c v) = 0))"

text \<open>
  The globals of the parent after the forks of the dimension 1 on \<open>kernel0\<close>: two
  workers, the handler of SIGUSR1 installed, the descriptors of the pipes closed.
\<close>

definition coordinator1 :: coordinator where
  "coordinator1 =
     globals1\<lparr>nbProcesses := 2, childs := [101, 102],
       dispositions := (\<lambda>_. SIG_DFL)(SIGUSR1 := Handler), parent_fds := [0, 1, 2]\<rparr>"

section \<open>Properties\<close>

lemma kill_childs_registered:
  "registered s \<Longrightarrow> kills (kill_childs sig s) = kills s @ map (\<lambda>p. (p, sig)) (childs s)"
proof -
  assume "registered s"
  then have len: "length (childs s) = nat (nbProcesses s)"
    by (simp add: registered_def)
  have "map (\<lambda>i. (childs s ! i, sig)) [0..<length (childs s)] = map (\<lambda>p. (p, sig)) (childs s)"
    by (rule nth_equalityI) simp_all
  with len show ?thesis
    by (simp add: kill_childs_def)
qed

text \<open>
  Claim C6. The handler of the toggle signal (SIGUSR1) is an involution on the paused
  state of the coordinator: a toggle received while the workers run sends SIGSTOP to
  every registered worker and leaves the coordinator paused, and two toggles in a row
  give back the paused state they started from.
\<close>

theorem toggle_involution:
  "(registered s \<and> \<not> paused s \<longrightarrow>
      kills (handler SIGUSR1 s) = kills s @ map (\<lambda>p. (p, SIGSTOP)) (childs s) \<and>
      paused (handler SIGUSR1 s)) \<and>
   paused (handler SIGUSR1 (handler SIGUSR1 s)) = paused s"
proof -
  have one: "paused (handler SIGUSR1 t) = (\<not> paused t)" for t
    by (simp add: handler_def paused_def lnot_def kill_childs_def Let_def)
  have "kills (handler SIGUSR1 s) = kills s @ map (\<lambda>p. (p, SIGSTOP)) (childs s)"
    if "registered s" "\<not> paused s"
    using that kill_childs_registered [of s SIGSTOP]
    by (simp add: handler_def paused_def Let_def)
  then show ?thesis
    by (simp add: one)
qed

theorem toggle_involution_witness:
  "registered \<lparr>nbProcesses = 2, nbPipes = 2, childs = [101, 102], pipes = [(3, 4), (5, 6)],
      n_sigusr1 = 1, dispositions = (\<lambda>_. SIG_DFL)(SIGUSR1 := Handler), kills = [],
      parent_fds = [], zombies = [], reaped = [], alive = True\<rparr> \<and>
   \<not> paused \<lparr>nbProcesses = 2, nbPipes = 2, childs = [101, 102], pipes = [(3, 4), (5, 6)],
      n_sigusr1 = 1, dispositions = (\<lambda>_. SIG_DFL)(SIGUSR1 := Handler), kills = [],
      parent_fds = [], zombies = [], reaped = [], alive = True\<rparr> \<and>
   kills (handler SIGUSR1 \<lparr>nbProcesses = 2, nbPipes = 2, childs = [101, 102],
      pipes = [(3, 4), (5, 6)], n_sigusr1 = 1,
      dispositions = (\<lambda>_. SIG_DFL)(SIGUSR1 := Handler), kills = [],
      parent_fds = [], zombies = [], reaped = [], alive = True\<rparr>) = [(101, SIGSTOP), (102, SIGSTOP)]"
  using toggle_involution [of "\<lparr>nbProcesses = 2, nbPipes = 2, childs = [101, 102],
      pipes = [(3, 4), (5, 6)], n_sigusr1 = 1,
      dispositions = (\<lambda>_. SIG_DFL)(SIGUSR1 := Handler), kills = [],
      parent_fds = [], zombies = [], reaped = [], alive = True\<rparr>"]
  by (simp add: registered_def paused_def)

subsection \<open>Arithmetic of the machine integers\<close>

lemma wrap32_id: "- (2 ^ 31) \<le> x \<Longrightarrow> x < 2 ^ 31 \<Longrightarrow> wrap32 x = x"
  by (simp add: wrap32_def)

lemma c_rem_nonneg: "0 \<le> a \<Longrightarrow> 0 < b \<Longrightarrow> c_rem a b = a mod b"
  by (simp add: c_rem_def sgn_if minus_mult_div_eq_mod)

lemma pow2_less_31: "m < 31 \<Longrightarrow> (2::int) ^ m < 2 ^ 31"
  by (rule power_strict_increasing) simp_all

lemma dim_small:
  assumes "1 \<le> n" "n * 2 ^ nat n < (2::int) ^ 31"
  shows "nat n < 31"
proof (rule ccontr)
  assume "\<not> nat n < 31"
  then have "31 \<le> nat n" by simp
  then have "(2::int) ^ 31 \<le> 2 ^ nat n"
    by (rule power_increasing) simp
  moreover have "(2::int) ^ nat n \<le> n * 2 ^ nat n"
    using assms(1) by (simp add: mult_le_cancel_right1)
  ultimately show False using assms(2) by linarith
qed

lemma shl32_one: "0 \<le> j \<Longrightarrow> j < 31 \<Longrightarrow> shl32 1 j = 2 ^ nat j"
proof -
  assume j: "0 \<le> j" "j < 31"
  then have m: "j mod 32 = j" by simp
  from j have "nat j < 31" by simp
  then have "(2::int) ^ nat j < 2 ^ 31"
    by (rule pow2_less_31)
  moreover have "- (2 ^ 31) \<le> (2::int) ^ nat j"
    by (rule order_trans [of _ 0]) simp_all
  ultimately have "wrap32 (2 ^ nat j) = 2 ^ nat j"
    by (rule wrap32_id [rotated])
  with m show ?thesis by (simp add: shl32_def)
qed

lemma xor_pow_bounds:
  assumes "0 \<le> v" "v < 2 ^ N" "j < N"
  shows "0 \<le> v XOR (2::int) ^ j" "v XOR (2::int) ^ j < 2 ^ N" "v XOR (2::int) ^ j \<noteq> v"
proof -
  show "0 \<le> v XOR (2::int) ^ j" using assms(1) by simp
  have "(2::int) ^ j < 2 ^ N" using assms(3) by simp
  with assms show "v XOR (2::int) ^ j < 2 ^ N" by (intro XOR_upper) simp_all
  show "v XOR (2::int) ^ j \<noteq> v"
  proof
    assume "v XOR (2::int) ^ j = v"
    then have "v XOR (v XOR (2::int) ^ j) = v XOR v" by simp
    then have "(v XOR v) XOR (2::int) ^ j = v XOR v" by (simp only: xor.assoc)
    then show False by simp
  qed
qed

lemma xor_cancel: "(v::int) XOR a = w XOR a \<Longrightarrow> v = w"
proof -
  assume "v XOR a = w XOR a"
  then have "(v XOR a) XOR a = (w XOR a) XOR a" by simp
  then show ?thesis by (simp add: xor.assoc)
qed

lemma index_inj:
  fixes n :: int
  assumes "0 \<le> j" "j < n" "0 \<le> j'" "j' < n" "v * n + j = v' * n + j'"
  shows "v = v' \<and> j = j'"
proof -
  have "(v * n + j) div n = v" using assms(1,2) by simp
  moreover have "(v' * n + j') div n = v'" using assms(3,4) by simp
  ultimately have "v = v'" using assms(5) by simp
  with assms(5) show ?thesis by simp
qed

lemma index_bound:
  fixes n :: int
  assumes "0 \<le> j" "j < n" "0 \<le> v" "v < M"
  shows "0 \<le> v * n + j" "v * n + j < M * n"
proof -
  show "0 \<le> v * n + j" using assms by simp
  have "v + 1 \<le> M" using assms(4) by simp
  then have "(v + 1) * n \<le> M * n" using assms(1,2) by (intro mult_right_mono) simp_all
  then show "v * n + j < M * n" using assms(2) by (simp add: algebra_simps)
qed

subsection \<open>The dimension 0\<close>

lemma atoi_zero: "atoi ''0'' = 0"
  by (simp add: atoi_def is_space_def is_digit_def wrap32_def)

lemma createPipes_zero: "createPipes 0 (globals0, k) = Inr (globals0, k)"
  by (simp add: createPipes_def shl32_def wrap32_def globals0_def)

lemma child_setup_zero:
  "child_setup 0 0 globals0 = Inr \<lparr>connectedPipes = [], open_fds = [0, 1, 2]\<rparr>"
  by (simp add: child_setup_def sweep_def globals0_def)

text \<open>
  Claim C9. The choice of the neighbour, \<open>rand() % n\<close>, has a value only for a
  dimension \<open>n \<ge> 1\<close> (the value then lies in \<open>0..n-1\<close>). The command line accepts the
  dimension 0: \<open>atoi\<close> gives 0, \<open>createPipes\<close> succeeds without creating a pipe, vertex
  0 exists, and when it enters \<open>passToken\<close> and its file opens it reaches the creation of
  the token and ends on the division by zero.
\<close>

theorem neighbour_choice_needs_positive_dimension:
  "(1 \<le> n \<and> 0 \<le> rnd \<longrightarrow>
      choose_neighbour rnd n = Inr (rnd mod n) \<and> 0 \<le> rnd mod n \<and> rnd mod n < n) \<and>
   choose_neighbour rnd 0 = Inl DivisionByZero \<and>
   (\<exists>s c. createPipes (atoi ''0'') (globals0, k) = Inr (s, k) \<and>
      run (network_of (atoi ''0'') s) [Enter 0 True rnd now] = Some c \<and>
      pc (workers c 0) = Dead DivisionByZero)"
proof -
  have a: "choose_neighbour rnd n = Inr (rnd mod n) \<and> 0 \<le> rnd mod n \<and> rnd mod n < n"
    if "1 \<le> n" "0 \<le> rnd"
    using that by (simp add: choose_neighbour_def c_rem_nonneg)
  have b: "choose_neighbour rnd 0 = Inl DivisionByZero"
    by (simp add: choose_neighbour_def)
  have c: "\<exists>c. run (network_of 0 globals0) [Enter 0 True rnd now] = Some c \<and>
      pc (workers c 0) = Dead DivisionByZero"
    by (simp add: net_step_def network_of_def child_setup_zero passToken_start_def
        intToBinary_def choose_neighbour_def shl32_def wrap32_def worker0_def Let_def)
  from a b c show ?thesis
    by (simp add: atoi_zero createPipes_zero)
qed

theorem neighbour_choice_needs_positive_dimension_witness:
  "(1::int) \<le> 3 \<and> (0::int) \<le> 17 \<and> choose_neighbour 17 3 = Inr 2"
  using neighbour_choice_needs_positive_dimension [of 3 17]
  by simp

subsection \<open>The name of the log file\<close>

lemma length_intToBinary_loop: "length (intToBinary_loop m num b) = m + length b"
  by (induction m arbitrary: num b) simp_all

text \<open>
  Claim C10. For every dimension \<open>n \<ge> 1\<close> and every vertex \<open>v\<close>, the number of bytes
  allocated for the name of the log file (the length of \<open>"%s/%s"\<close> plus 1) is exactly 4
  less than the length, terminating zero included, of the text that \<open>sprintf\<close> writes
  with \<open>"%s/%s.txt"\<close>: the block never holds the text written into it.
\<close>

theorem filename_allocation_four_short:
  "1 \<le> n \<Longrightarrow>
   \<exists>b. intToBinary v n = Inr b \<and> length b = nat n \<and>
     filename_bytes (fst (passToken_start v cp n ps True rnd now q)) = filename_alloc n b \<and>
     filename (fst (passToken_start v cp n ps True rnd now q)) = filename_text n b \<and>
     filename_alloc n b + 4 = int (length (filename_text n b)) + 1 \<and>
     filename_alloc n b < int (length (filename_text n b)) + 1"
proof -
  assume n: "1 \<le> n"
  let ?b = "intToBinary_loop (nat n) v []"
  have b: "intToBinary v n = Inr ?b"
    using n by (simp add: intToBinary_def)
  have len: "length ?b = nat n"
    by (simp add: length_intToBinary_loop)
  have sizes: "filename_alloc n ?b + 4 = int (length (filename_text n ?b)) + 1"
    by (simp add: filename_alloc_def filename_text_def)
  have start: "filename_bytes (fst (passToken_start v cp n ps True rnd now q)) = filename_alloc n ?b \<and>
     filename (fst (passToken_start v cp n ps True rnd now q)) = filename_text n ?b"
    using n by (simp add: passToken_start_def b choose_neighbour_def Let_def split: option.splits)
  from b len sizes start show ?thesis
    by simp
qed

theorem filename_allocation_four_short_witness:
  "(1::int) \<le> 3 \<and> intToBinary 5 3 = Inr ''101'' \<and> filename_alloc 3 ''101'' = 6 \<and>
   filename_text 3 ''101'' = ''3/101.txt''"
proof -
  have e: "intToBinary_loop 3 5 [] = ''101''" by code_simp
  have "(1::int) \<le> 3" by simp
  from filename_allocation_four_short [OF this, of 5] e
  show ?thesis
    by (simp add: intToBinary_def filename_alloc_def filename_text_def dirName_def show_int_def
        show_nat.simps digit_char_def)
qed

subsection \<open>The signals of the coordinator\<close>

lemma createPipes_loop_signals:
  "createPipes_loop m (s, k) = Inr (s', k') \<Longrightarrow>
   dispositions s' = dispositions s \<and> kills s' = kills s \<and> alive s' = alive s"
proof (induction m arbitrary: s k)
  case 0
  then show ?case by simp
next
  case (Suc m)
  then show ?case
    by (auto split: prod.splits option.splits)
qed

lemma fork_loop_signals:
  "fork_loop m (s, k) = Inr (s', k') \<Longrightarrow>
   dispositions s' = dispositions s \<and> kills s' = kills s \<and> alive s' = alive s"
proof (induction m arbitrary: s k)
  case 0
  then show ?case by simp
next
  case (Suc m)
  then show ?case
    by (auto split: prod.splits option.splits)
qed

lemma spawn_leaves_sigint_default:
  assumes "createPipes n (globals0, k) = Inr (s, k1)"
    and "createProcesses_spawn n (s, k1) = Inr (s', k')"
  shows "dispositions s' SIGINT = SIG_DFL \<and> dispositions s' SIGUSR1 = Handler \<and>
         kills (deliver SIGINT s') = [] \<and> \<not> alive (deliver SIGINT s')"
proof -
  from assms(1) have s: "dispositions s = (\<lambda>_. SIG_DFL) \<and> kills s = [] \<and> alive s"
    by (auto simp: createPipes_def globals0_def Let_def dest!: createPipes_loop_signals)
  from assms(2) obtain s2 where
    f: "fork_loop (nat (shl32 1 n)) (s\<lparr>nbProcesses := shl32 1 n, childs := []\<rparr>, k1) = Inr (s2, k')"
    and s': "s' = close_all_pipes (install_handlers s2)"
    by (auto simp: createProcesses_spawn_def Let_def split: sum.splits)
  from fork_loop_signals [OF f] s
  have "dispositions s2 = (\<lambda>_. SIG_DFL) \<and> kills s2 = [] \<and> alive s2"
    by simp
  with s' show ?thesis
    by (simp add: close_all_pipes_def install_handlers_def deliver_def)
qed

text \<open>
  Claim C5, evaluated on the code for the dimension 1. After the forks the only handler
  installed is the one of SIGUSR1; SIGINT keeps its default action. When SIGINT is
  delivered to the coordinator, no signal is sent to any worker and the coordinator
  itself is terminated. The last line shows what \<open>handler\<close> would do if it were
  called with SIGINT: its branch for that signal sends SIGINT to both workers.
\<close>

theorem sigint_not_relayed:
  "\<exists>s k1 s' k'. createPipes 1 (globals0, kernel0) = Inr (s, k1) \<and>
      createProcesses_spawn 1 (s, k1) = Inr (s', k') \<and>
      childs s' = [101, 102] \<and>
      dispositions s' SIGUSR1 = Handler \<and>
      dispositions s' SIGINT = SIG_DFL \<and>
      kills (deliver SIGINT s') = [] \<and>
      \<not> alive (deliver SIGINT s') \<and>
      kills (handler SIGINT s') = [(101, SIGINT), (102, SIGINT)]"
  by (simp add: createPipes_def createProcesses_spawn_def globals0_def kernel0_def shl32_def
      wrap32_def pipe_sys_def fork_sys_def numeral_2_eq_2 install_handlers_def close_all_pipes_def
      deliver_def handler_def kill_childs_def close_fd_def Let_def)

subsection \<open>Waiting for the workers\<close>









lemma createProcesses_spawn_one:
  "createProcesses_spawn 1 (globals1, kernel0\<lparr>next_fd := 7\<rparr>) =
   Inr (coordinator1, kernel0\<lparr>next_fd := 7, next_pid := 103, procs_left := 98\<rparr>)"
  by (simp add: createProcesses_spawn_def globals0_def globals1_def coordinator1_def kernel0_def
      shl32_def wrap32_def fork_sys_def numeral_2_eq_2 install_handlers_def close_all_pipes_def
      close_fd_def Let_def)



subsection \<open>The run of the dimension 1\<close>

lemma c_rem_one: "c_rem a 1 = 0"
  by (simp add: c_rem_def sgn_if)

lemma show_int_small: "show_int 1 = ''1''" "show_int 2 = ''2''" "show_int 3 = ''3''"
  by (simp_all add: show_int_def show_nat.simps digit_char_def)

lemma createPipes_one: "createPipes 1 (globals0, kernel0) = Inr (globals1, kernel0\<lparr>next_fd := 7\<rparr>)"
  by (simp add: createPipes_def globals0_def globals1_def kernel0_def shl32_def wrap32_def
      pipe_sys_def numeral_2_eq_2 Let_def)

lemma child_setup_one:
  "child_setup 1 0 globals1 = Inr \<lparr>connectedPipes = [3, 6], open_fds = [0, 1, 2, 3, 6]\<rparr>"
  "child_setup 1 1 globals1 = Inr \<lparr>connectedPipes = [5, 4], open_fds = [0, 1, 2, 4, 5]\<rparr>"
  by (simp_all add: child_setup_def sweep_def globals0_def globals1_def pipe_at_def shl32_def
      wrap32_def close_fd_def needClose_def)

lemma pipes_globals1: "pipes globals1 = [(3, 4), (5, 6)]"
  by (simp add: globals1_def)

lemma run_one:
  "\<exists>c. run (network_of 1 globals1) [Enter 0 True r0 t0, Enter 1 True r1 t1, Turn 1 [5] r2 t2] = Some c \<and>
     token (workers c 0) = 1 \<and> logfile (workers c 0) = [Seed 1] \<and>
     token (workers c 1) = 2 \<and> logfile (workers c 1) = [First 2]"
  by (simp add: network_of_def child_setup_one net_step_def passToken_start_def
      passToken_round_def intToBinary_def choose_neighbour_def c_rem_one send_fd_def recv_fd_def
      write_sys_def shl32_def wrap32_def worker0_def pipes_globals1 Let_def)

text \<open>
  Claim C8, as the code has it. In the run of the dimension 1, vertex 0 creates the
  token with the value 1 and the first line of its log file is \<open>token: 1\<close>; vertex 1
  receives the token, increments it to 2, and the first line of its log file is
  \<open>first received token: 2\<close>.
\<close>

theorem first_lines_dimension_one:
  "(case createPipes 1 (globals0, kernel0) of
      Inr (s, k) \<Rightarrow>
        (case run (network_of 1 s) [Enter 0 True r0 t0, Enter 1 True r1 t1, Turn 1 [5] r2 t2] of
           Some c \<Rightarrow>
             token (workers c 0) = 1 \<and>
             text_of (workers c 0) = ''token: 1'' @ [CHR 0x0A] \<and>
             token (workers c 1) = 2 \<and>
             text_of (workers c 1) = ''first received token: 2'' @ [CHR 0x0A]
         | None \<Rightarrow> False)
    | Inl e \<Rightarrow> False)"
proof -
  from run_one [of r0 t0 r1 t1 r2 t2] obtain c where
    "run (network_of 1 globals1) [Enter 0 True r0 t0, Enter 1 True r1 t1, Turn 1 [5] r2 t2] = Some c"
    "token (workers c 0) = 1" "logfile (workers c 0) = [Seed 1]"
    "token (workers c 1) = 2" "logfile (workers c 1) = [First 2]"
    by blast
  then show ?thesis
    by (simp add: createPipes_one text_of_def show_int_small)
qed

text \<open>
  The claim as the specification words it fails on that run: the log file of vertex 0
  does not start with \<open>seed: 1\<close>, and the log file of vertex 1 does not start with
  \<open>first received: 2\<close>.
\<close>

theorem first_lines_dimension_one_counterexample:
  "(case createPipes 1 (globals0, kernel0) of
      Inr (s, k) \<Rightarrow>
        (case run (network_of 1 s)
                [Enter 0 True 17 \<lparr>tv_sec = 1000, tv_usec = 5\<rparr>,
                 Enter 1 True 4 \<lparr>tv_sec = 1000, tv_usec = 9\<rparr>,
                 Turn 1 [5] 33 \<lparr>tv_sec = 1000, tv_usec = 50\<rparr>] of
           Some c \<Rightarrow>
             take 7 (text_of (workers c 0)) \<noteq> ''seed: 1'' \<and>
             take 17 (text_of (workers c 1)) \<noteq> ''first received: 2''
         | None \<Rightarrow> False)
    | Inl e \<Rightarrow> False)"
proof -
  from run_one [of 17 "\<lparr>tv_sec = 1000, tv_usec = 5\<rparr>" 4 "\<lparr>tv_sec = 1000, tv_usec = 9\<rparr>"
      33 "\<lparr>tv_sec = 1000, tv_usec = 50\<rparr>"]
  obtain c where
    "run (network_of 1 globals1)
       [Enter 0 True 17 \<lparr>tv_sec = 1000, tv_usec = 5\<rparr>, Enter 1 True 4 \<lparr>tv_sec = 1000, tv_usec = 9\<rparr>,
        Turn 1 [5] 33 \<lparr>tv_sec = 1000, tv_usec = 50\<rparr>] = Some c"
    "logfile (workers c 0) = [Seed 1]" "logfile (workers c 1) = [First 2]"
    by blast
  then show ?thesis
    by (simp add: createPipes_one text_of_def show_int_small)
qed

subsection \<open>One turn of the loop of a worker\<close>

lemma drain_all:
  "distinct (map (recv_fd cp) js) \<Longrightarrow>
   \<forall>i\<in>set (ready_dims cp readfds js). q (recv_fd cp i) \<noteq> [] \<Longrightarrow>
   drain cp js readfds q t =
     (Inr (if ready_dims cp readfds js = [] then t
           else hd (q (recv_fd cp (last (ready_dims cp readfds js))))),
      (\<lambda>fd. if fd \<in> recv_fd cp ` set (ready_dims cp readfds js) then tl (q fd) else q fd))"
proof (induction js arbitrary: q t)
  case Nil
  then show ?case by (simp add: ready_dims_def)
next
  case (Cons i js)
  let ?fd = "recv_fd cp i"
  from Cons.prems(1) have d: "distinct (map (recv_fd cp) js)"
    by simp
  from Cons.prems(1) have fresh: "\<forall>j\<in>set js. recv_fd cp j \<noteq> ?fd"
    by (fastforce simp: image_iff)
  show ?case
  proof (cases "?fd \<in> set readfds")
    case False
    then have r: "ready_dims cp readfds (i # js) = ready_dims cp readfds js"
      by (simp add: ready_dims_def)
    from Cons.prems(2) r have "\<forall>i\<in>set (ready_dims cp readfds js). q (recv_fd cp i) \<noteq> []"
      by simp
    from Cons.IH [OF d this] False r show ?thesis
      by simp
  next
    case True
    then have r: "ready_dims cp readfds (i # js) = i # ready_dims cp readfds js"
      by (simp add: ready_dims_def)
    with Cons.prems(2) obtain x xs where q: "q ?fd = x # xs"
      by (cases "q ?fd") auto
    let ?q = "q(?fd := xs)"
    have sub: "set (ready_dims cp readfds js) \<subseteq> set js"
      by (auto simp: ready_dims_def)
    with fresh have same: "\<forall>j\<in>set (ready_dims cp readfds js). ?q (recv_fd cp j) = q (recv_fd cp j)"
      by auto
    with Cons.prems(2) r have "\<forall>j\<in>set (ready_dims cp readfds js). ?q (recv_fd cp j) \<noteq> []"
      by simp
    from Cons.IH [OF d this, of x]
    have ih: "drain cp js readfds ?q x =
      (Inr (if ready_dims cp readfds js = [] then x
            else hd (?q (recv_fd cp (last (ready_dims cp readfds js))))),
       (\<lambda>fd. if fd \<in> recv_fd cp ` set (ready_dims cp readfds js) then tl (?q fd) else ?q fd))" .
    have nothd: "?fd \<notin> recv_fd cp ` set (ready_dims cp readfds js)"
      using fresh sub by auto
    have tok: "(if ready_dims cp readfds js = [] then x
            else hd (?q (recv_fd cp (last (ready_dims cp readfds js))))) =
          hd (q (recv_fd cp (last (ready_dims cp readfds (i # js)))))"
    proof (cases "ready_dims cp readfds js = []")
      case True
      with r q show ?thesis by simp
    next
      case False
      then have "last (ready_dims cp readfds js) \<in> set (ready_dims cp readfds js)"
        by simp
      with same have "?q (recv_fd cp (last (ready_dims cp readfds js))) =
          q (recv_fd cp (last (ready_dims cp readfds js)))"
        by blast
      with False r show ?thesis by simp
    qed
    have qs: "(\<lambda>fd. if fd \<in> recv_fd cp ` set (ready_dims cp readfds js) then tl (?q fd) else ?q fd) =
       (\<lambda>fd. if fd \<in> recv_fd cp ` set (ready_dims cp readfds (i # js)) then tl (q fd) else q fd)"
    proof
      fix fd
      show "(if fd \<in> recv_fd cp ` set (ready_dims cp readfds js) then tl (?q fd) else ?q fd) =
       (if fd \<in> recv_fd cp ` set (ready_dims cp readfds (i # js)) then tl (q fd) else q fd)"
        using nothd q r by (cases "fd = ?fd") auto
    qed
    from True q ih tok qs r show ?thesis
      by simp
  qed
qed

lemma round_token:
  "drain cp [0..<nat n] readfds q (token w) = (Inr t, q1) \<Longrightarrow>
   list_ex (\<lambda>i. recv_fd cp i \<in> set readfds) [0..<nat n] \<Longrightarrow>
   passToken_round cp n ps readfds rnd now (w, q) = (w', q') \<Longrightarrow>
   token w' = wrap32 (t + 1) \<and>
   (\<exists>l. logfile w' = logfile w @ [l] \<and> logged l = wrap32 (t + 1))"
  by (auto simp: passToken_round_def Let_def split: sum.splits option.splits if_splits)

text \<open>
  Claim C3, as the code has it. In one turn of the loop of a worker whose read ends are
  distinct descriptors, if \<open>k \<ge> 1\<close> read ends are ready, each holding a token, all
  \<open>k\<close> are read in that turn, one token each. Every read stores into the same
  variable, and \<open>token++\<close> comes once, after the reads: the counter ends one above the
  value read from the ready read end of the highest dimension, whatever \<open>k\<close> is, and
  one line is added to the log.
\<close>

theorem round_drains_all_increments_once:
  assumes "distinct (map (recv_fd cp) [0..<nat n])"
    and "ready_dims cp readfds [0..<nat n] \<noteq> []"
    and "\<forall>i\<in>set (ready_dims cp readfds [0..<nat n]). q (recv_fd cp i) \<noteq> []"
    and "passToken_round cp n ps readfds rnd now (w, q) = (w', q')"
  shows "\<exists>q1. drain cp [0..<nat n] readfds q (token w) =
           (Inr (hd (q (recv_fd cp (last (ready_dims cp readfds [0..<nat n]))))), q1) \<and>
         (\<forall>i\<in>set (ready_dims cp readfds [0..<nat n]). q1 (recv_fd cp i) = tl (q (recv_fd cp i))) \<and>
         token w' = wrap32 (hd (q (recv_fd cp (last (ready_dims cp readfds [0..<nat n])))) + 1) \<and>
         (\<exists>l. logfile w' = logfile w @ [l] \<and>
              logged l = wrap32 (hd (q (recv_fd cp (last (ready_dims cp readfds [0..<nat n])))) + 1))"
proof -
  let ?r = "ready_dims cp readfds [0..<nat n]"
  let ?q1 = "\<lambda>fd. if fd \<in> recv_fd cp ` set ?r then tl (q fd) else q fd"
  from drain_all [OF assms(1) assms(3), of "token w"] assms(2)
  have d: "drain cp [0..<nat n] readfds q (token w) = (Inr (hd (q (recv_fd cp (last ?r)))), ?q1)"
    by simp
  from assms(2) have ex: "list_ex (\<lambda>i. recv_fd cp i \<in> set readfds) [0..<nat n]"
    by (auto simp: ready_dims_def list_ex_iff filter_empty_conv)
  from round_token [OF d ex assms(4)] d show ?thesis
    by auto
qed

theorem round_drains_all_increments_once_witness:
  "distinct (map (recv_fd [3, 8, 5, 14]) [0..<nat 2]) \<and>
   ready_dims [3, 8, 5, 14] [3, 5] [0..<nat 2] = [0, 1] \<and>
   token (fst (passToken_round [3, 8, 5, 14] 2 (pipes globals2) [3, 5] 0
      \<lparr>tv_sec = 1000, tv_usec = 50\<rparr>
      (worker0\<lparr>token := 6, pc := Waiting\<rparr>, (\<lambda>_. [])(3 := [9], 5 := [5])))) = 6"
proof -
  let ?q = "(\<lambda>_. [])(3 := [9::int], 5 := [5])"
  let ?res = "passToken_round [3, 8, 5, 14] 2 (pipes globals2) [3, 5] 0
      \<lparr>tv_sec = 1000, tv_usec = 50\<rparr> (worker0\<lparr>token := 6, pc := Waiting\<rparr>, ?q)"
  have two: "[0..<2] = [0, Suc 0]"
    by (simp add: numeral_2_eq_2)
  have h1: "distinct (map (recv_fd [3, 8, 5, 14]) [0..<nat 2])"
    by (simp add: two recv_fd_def)
  have r: "ready_dims [3, 8, 5, 14] [3, 5] [0..<nat 2] = [0, 1]"
    by (simp add: two ready_dims_def recv_fd_def)
  have h2: "ready_dims [3, 8, 5, 14] [3, 5] [0..<nat 2] \<noteq> []"
    using r by simp
  have h3: "\<forall>i\<in>set (ready_dims [3, 8, 5, 14] [3, 5] [0..<nat 2]). ?q (recv_fd [3, 8, 5, 14] i) \<noteq> []"
    using r by (simp add: recv_fd_def)
  have h4: "?res = (fst ?res, snd ?res)"
    by simp
  from round_drains_all_increments_once [OF h1 h2 h3 h4] h1 r
  show ?thesis
    by (auto simp add: recv_fd_def wrap32_def)
qed

text \<open>
  The claim as the specification words it fails: vertex 0 of the dimension 2 reads two
  tokens in one turn, and its counter ends one increment above the value read last. Two
  arrivals that both carry 7 give 8; arrivals that carry 9 and 5 give 6, the 9 being
  overwritten. In both turns one line is logged and one token is sent on.
\<close>

theorem round_counterexample:
  "(case passToken_round [3, 8, 5, 14] 2 (pipes globals2) [3, 5] 0 \<lparr>tv_sec = 1000, tv_usec = 50\<rparr>
           (worker0\<lparr>token := 6, pc := Waiting\<rparr>, (\<lambda>_. [])(3 := [7], 5 := [7])) of
      (w, q) \<Rightarrow> q 3 = [] \<and> q 5 = [] \<and> token w = 8 \<and> logfile w = [First 8] \<and> q 7 = [8]) \<and>
   (case passToken_round [3, 8, 5, 14] 2 (pipes globals2) [3, 5] 0 \<lparr>tv_sec = 1000, tv_usec = 50\<rparr>
           (worker0\<lparr>token := 6, pc := Waiting\<rparr>, (\<lambda>_. [])(3 := [9], 5 := [5])) of
      (w, q) \<Rightarrow> q 3 = [] \<and> q 5 = [] \<and> token w = 6 \<and> logfile w = [First 6] \<and> q 7 = [6])"
  by (simp add: passToken_round_def globals2_def recv_fd_def send_fd_def write_sys_def
      choose_neighbour_def c_rem_def wrap32_def worker0_def numeral_2_eq_2 Let_def)

subsection \<open>The table of pipes and the descriptors of a worker\<close>

lemma table_of_Suc_front:
  "table_of f (Suc m) = (f, f + 1) # table_of (f + 2) m"
proof -
  have "[0..<Suc m] = 0 # map Suc [0..<m]"
    by (simp add: upt_conv_Cons map_Suc_upt del: upt_Suc)
  then show ?thesis
    by (simp add: table_of_def read_end_def write_end_def algebra_simps del: upt_Suc)
qed

lemma createPipes_loop_table:
  "createPipes_loop m (s, k) = Inr (s', k') \<Longrightarrow>
   pipes s' = pipes s @ table_of (next_fd k) m \<and>
   set (parent_fds s') = set (parent_fds s) \<union> fst ` set (table_of (next_fd k) m)
      \<union> snd ` set (table_of (next_fd k) m) \<and>
   nbPipes s' = nbPipes s"
proof (induction m arbitrary: s k)
  case 0
  then show ?case by (simp add: table_of_def)
next
  case (Suc m)
  from Suc.prems obtain k1 where
    p: "pipe_sys k = (Some (next_fd k, next_fd k + 1), k1)" and k1: "next_fd k1 = next_fd k + 2"
    and l: "createPipes_loop m (s\<lparr>pipes := pipes s @ [(next_fd k, next_fd k + 1)],
             parent_fds := parent_fds s @ [next_fd k, next_fd k + 1]\<rparr>, k1) = Inr (s', k')"
    by (auto simp: pipe_sys_def split: if_splits)
  from Suc.IH [OF l] k1 show ?case
    by (auto simp: table_of_Suc_front)
qed

lemma nbPipes_value:
  assumes "1 \<le> n" "n * 2 ^ nat n < (2::int) ^ 31"
  shows "wrap32 (shl32 1 n * n) = n * 2 ^ nat n"
proof -
  from dim_small [OF assms] assms(1) have "shl32 1 n = 2 ^ nat n"
    by (intro shl32_one) simp_all
  moreover have "(0::int) \<le> n * 2 ^ nat n"
    using assms(1) by simp
  then have "wrap32 (n * 2 ^ nat n) = n * 2 ^ nat n"
    using assms(2) by (intro wrap32_id) linarith+
  ultimately show ?thesis by (simp add: mult.commute)
qed

lemma createPipes_table:
  assumes "1 \<le> n" "n * 2 ^ nat n < (2::int) ^ 31"
    and "createPipes n (s0, k) = Inr (s, k')"
  shows "nbPipes s = n * 2 ^ nat n"
    and "pipes s = table_of (next_fd k) (nat n * 2 ^ nat n)"
    and "set (parent_fds s) = set (parent_fds s0) \<union> fst ` set (pipes s) \<union> snd ` set (pipes s)"
proof -
  have m: "nat (n * 2 ^ nat n) = nat n * 2 ^ nat n"
    using assms(1) by (simp add: nat_mult_distrib nat_power_eq)
  from assms(3) have l: "createPipes_loop (nat n * 2 ^ nat n)
      (s0\<lparr>nbPipes := n * 2 ^ nat n, pipes := []\<rparr>, k) = Inr (s, k')"
    by (simp add: createPipes_def nbPipes_value [OF assms(1,2)] m Let_def)
  from createPipes_loop_table [OF l]
  show "nbPipes s = n * 2 ^ nat n" and p: "pipes s = table_of (next_fd k) (nat n * 2 ^ nat n)"
    by simp_all
  from createPipes_loop_table [OF l] p
  show "set (parent_fds s) = set (parent_fds s0) \<union> fst ` set (pipes s) \<union> snd ` set (pipes s)"
    by simp
qed

lemma length_table_of: "length (table_of f m) = m"
  by (simp add: table_of_def)

lemma nth_table_of: "k < m \<Longrightarrow> table_of f m ! k = (read_end f (int k), write_end f (int k))"
  by (simp add: table_of_def)

lemma pipe_at_table:
  "0 \<le> k \<Longrightarrow> k < int m \<Longrightarrow> pipe_at (table_of f m) k = Inr (read_end f k, write_end f k)"
  by (simp add: pipe_at_def length_table_of nth_table_of)

lemma pipe_at_index:
  assumes "1 \<le> n" "n * 2 ^ nat n < (2::int) ^ 31" "0 \<le> u" "u < 2 ^ nat n" "0 \<le> j" "j < n"
  shows "pipe_at (table_of f (nat n * 2 ^ nat n)) (wrap32 (wrap32 (u * n) + j)) =
         Inr (read_end f (u * n + j), write_end f (u * n + j))"
proof -
  from index_bound [OF assms(5,6,3,4)]
  have b: "0 \<le> u * n + j" "u * n + j < 2 ^ nat n * n" by simp_all
  have b0: "0 \<le> u * n" using assms(1,3) by simp
  have "u * n \<le> u * n + j" using assms(5) by simp
  with b(2) assms(2) have lt: "u * n < 2 ^ 31" "u * n + j < 2 ^ 31"
    by (simp_all add: mult.commute)
  from b0 lt(1) have w1: "wrap32 (u * n) = u * n"
    by (intro wrap32_id) linarith+
  from b(1) lt(2) have w2: "wrap32 (u * n + j) = u * n + j"
    by (intro wrap32_id) linarith+
  have "int (nat n * 2 ^ nat n) = n * 2 ^ nat n"
    using assms(1) by simp
  with b(2) have "u * n + j < int (nat n * 2 ^ nat n)"
    by (simp add: mult.commute)
  from pipe_at_table [OF b(1) this] w1 w2 show ?thesis by simp
qed

lemma set_close_fd: "set (close_fd fd fds) = set fds - {fd}"
  by (auto simp: close_fd_def)

lemma connect_loop_result:
  assumes "1 \<le> n" "n * 2 ^ nat n < (2::int) ^ 31" "0 \<le> v" "v < 2 ^ nat n"
    and "\<forall>j\<in>set js. 0 \<le> j \<and> j < n"
  shows "\<exists>c'. connect_loop n v (table_of f (nat n * 2 ^ nat n)) js c = Inr c' \<and>
           connectedPipes c' = connectedPipes c @
             concat (map (\<lambda>j. [read_end f (v * n + j), write_end f ((v XOR 2 ^ nat j) * n + j)]) js) \<and>
           set (open_fds c') = set (open_fds c) -
             (\<Union>j\<in>set js. {write_end f (v * n + j), read_end f ((v XOR 2 ^ nat j) * n + j)})"
  using assms(5)
proof (induction js arbitrary: c)
  case Nil
  then show ?case by simp
next
  case (Cons j js)
  from Cons.prems have j: "0 \<le> j" "j < n" and rest: "\<forall>j\<in>set js. 0 \<le> j \<and> j < n"
    by simp_all
  from dim_small [OF assms(1,2)] j have j31: "j < 31" "nat j < nat n" by simp_all
  from shl32_one [OF j(1) j31(1)] have sh: "shl32 1 j = 2 ^ nat j" .
  from xor_pow_bounds [OF assms(3,4) j31(2)]
  have x: "0 \<le> v XOR 2 ^ nat j" "v XOR 2 ^ nat j < 2 ^ nat n" by simp_all
  note own = pipe_at_index [OF assms(1,2) assms(3,4) j, of f]
  note nb = pipe_at_index [OF assms(1,2) x j, of f]
  let ?c1 = "c\<lparr>connectedPipes := connectedPipes c @
                 [read_end f (v * n + j), write_end f ((v XOR 2 ^ nat j) * n + j)],
               open_fds := close_fd (read_end f ((v XOR 2 ^ nat j) * n + j))
                 (close_fd (write_end f (v * n + j)) (open_fds c))\<rparr>"
  have step: "connect_loop n v (table_of f (nat n * 2 ^ nat n)) (j # js) c =
        connect_loop n v (table_of f (nat n * 2 ^ nat n)) js ?c1"
    by (simp add: sh own nb Let_def)
  from Cons.IH [OF rest, of ?c1] obtain c' where
    "connect_loop n v (table_of f (nat n * 2 ^ nat n)) js ?c1 = Inr c'"
    "connectedPipes c' = connectedPipes ?c1 @
       concat (map (\<lambda>j. [read_end f (v * n + j), write_end f ((v XOR 2 ^ nat j) * n + j)]) js)"
    "set (open_fds c') = set (open_fds ?c1) -
       (\<Union>j\<in>set js. {write_end f (v * n + j), read_end f ((v XOR 2 ^ nat j) * n + j)})"
    by blast
  with step show ?case
    by (auto simp: set_close_fd)
qed

lemma sweep_sets:
  fixes rd wr :: "int \<Rightarrow> int" and own nb :: "int \<Rightarrow> int"
  assumes inj_rd: "\<And>a b. rd a = rd b \<Longrightarrow> a = b" and inj_wr: "\<And>a b. wr a = wr b \<Longrightarrow> a = b"
    and rw: "\<And>a b. rd a \<noteq> wr b"
    and S0: "\<And>x k. x \<in> S0 \<Longrightarrow> k \<in> K \<Longrightarrow> x \<noteq> rd k \<and> x \<noteq> wr k"
    and ownK: "\<And>j. j \<in> J \<Longrightarrow> own j \<in> K" and nbK: "\<And>j. j \<in> J \<Longrightarrow> nb j \<in> K"
    and ne: "\<And>j j'. j \<in> J \<Longrightarrow> j' \<in> J \<Longrightarrow> own j \<noteq> nb j'"
    and cps: "cps = (\<Union>j\<in>J. {rd (own j), wr (nb j)})"
  shows "((S0 \<union> rd ` K \<union> wr ` K) - (\<Union>j\<in>J. {wr (own j), rd (nb j)}))
           - (\<Union>k\<in>{k\<in>K. rd k \<notin> cps \<and> wr k \<notin> cps}. {rd k, wr k}) = S0 \<union> cps"
    (is "?L = ?R")
proof (rule set_eqI, rule iffI)
  fix x
  assume x: "x \<in> ?L"
  then have nC1: "x \<notin> (\<Union>j\<in>J. {wr (own j), rd (nb j)})"
    and nC2: "\<And>k. k \<in> K \<Longrightarrow> x = rd k \<or> x = wr k \<Longrightarrow> rd k \<in> cps \<or> wr k \<in> cps"
    by auto
  from x consider "x \<in> S0" | k where "k \<in> K" "x = rd k" | k where "k \<in> K" "x = wr k"
    by auto
  then show "x \<in> ?R"
  proof cases
    case 1
    then show ?thesis by simp
  next
    case 2
    from nC2 [OF 2(1)] 2(2) have "rd k \<in> cps \<or> wr k \<in> cps" by simp
    then show ?thesis
    proof
      assume "rd k \<in> cps"
      with 2 show ?thesis by simp
    next
      assume "wr k \<in> cps"
      then obtain j where j: "j \<in> J" "wr k = wr (nb j)"
        using rw by (auto simp: cps) metis
      then have "k = nb j" by (auto dest: inj_wr)
      with 2 j nC1 show ?thesis by auto
    qed
  next
    case 3
    from nC2 [OF 3(1)] 3(2) have "rd k \<in> cps \<or> wr k \<in> cps" by simp
    then show ?thesis
    proof
      assume "wr k \<in> cps"
      with 3 show ?thesis by simp
    next
      assume "rd k \<in> cps"
      then obtain j where j: "j \<in> J" "rd k = rd (own j)"
        using rw by (auto simp: cps)
      then have "k = own j" by (auto dest: inj_rd)
      with 3 j nC1 show ?thesis by auto
    qed
  qed
next
  fix x
  assume "x \<in> ?R"
  then consider "x \<in> S0" | j where "j \<in> J" "x = rd (own j)" | j where "j \<in> J" "x = wr (nb j)"
    by (auto simp: cps)
  then show "x \<in> ?L"
  proof cases
    case 1
    with S0 ownK nbK show ?thesis by auto
  next
    case 2
    have a: "x \<in> rd ` K" using 2 ownK by auto
    have b: "x \<notin> (\<Union>j\<in>J. {wr (own j), rd (nb j)})"
      using 2 rw ne by (auto dest!: inj_rd)
    have c: "x \<notin> (\<Union>k\<in>{k\<in>K. rd k \<notin> cps \<and> wr k \<notin> cps}. {rd k, wr k})"
    proof
      assume "x \<in> (\<Union>k\<in>{k\<in>K. rd k \<notin> cps \<and> wr k \<notin> cps}. {rd k, wr k})"
      then obtain k where k: "rd k \<notin> cps" "x = rd k \<or> x = wr k" by auto
      with 2 rw have "x = rd k" by auto
      with 2 k(1) show False by (auto simp: cps)
    qed
    from a b c show ?thesis by simp
  next
    case 3
    have a: "x \<in> wr ` K" using 3 nbK by auto
    have b: "x \<notin> (\<Union>j\<in>J. {wr (own j), rd (nb j)})"
    proof
      assume "x \<in> (\<Union>j\<in>J. {wr (own j), rd (nb j)})"
      then obtain j' where j': "j' \<in> J" "x = wr (own j') \<or> x = rd (nb j')" by auto
      with 3 rw have "wr (nb j) = wr (own j')" by metis
      then have "nb j = own j'" by (rule inj_wr)
      with ne [OF j'(1) 3(1)] show False by simp
    qed
    have c: "x \<notin> (\<Union>k\<in>{k\<in>K. rd k \<notin> cps \<and> wr k \<notin> cps}. {rd k, wr k})"
    proof
      assume "x \<in> (\<Union>k\<in>{k\<in>K. rd k \<notin> cps \<and> wr k \<notin> cps}. {rd k, wr k})"
      then obtain k where k: "wr k \<notin> cps" "x = rd k \<or> x = wr k" by auto
      with 3 rw have "x = wr k" by metis
      with 3 k(1) show False by (auto simp: cps)
    qed
    from a b c show ?thesis by simp
  qed
qed


lemma set_fold_close:
  "set (fold (\<lambda>p fds. if C p then close_fd (snd p) (close_fd (fst p) fds) else fds) ps S) =
   set S - (\<Union>p\<in>{p \<in> set ps. C p}. {fst p, snd p})"
  by (induction ps arbitrary: S) (auto simp: set_close_fd)

lemma set_sweep:
  "set (open_fds (sweep n ps c)) =
   set (open_fds c) - (\<Union>p\<in>{p \<in> set ps. needClose n (connectedPipes c) p}. {fst p, snd p})"
  by (simp add: sweep_def set_fold_close)

lemma connectedPipes_sweep: "connectedPipes (sweep n ps c) = connectedPipes c"
  by (simp add: sweep_def)

lemma needClose_all:
  assumes "0 \<le> n" "n < 31" "length cp = 2 * nat n"
  shows "needClose n cp p = (fst p \<notin> set cp \<and> snd p \<notin> set cp)"
proof -
  have "wrap32 (n * 2) = n * 2"
    using assms(1,2) by (intro wrap32_id) simp_all
  then have "take (nat (wrap32 (n * 2))) cp = cp"
    using assms(1,3) by simp
  then show ?thesis
    by (auto simp: needClose_def list_ex_iff)
qed

lemma set_table_of:
  "set (table_of f m) = (\<lambda>k. (read_end f k, write_end f k)) ` {0..<int m}"
proof -
  have "set (table_of f m) = (\<lambda>k. (read_end f k, write_end f k)) ` int ` {0..<m}"
    by (simp add: table_of_def image_image)
  then show ?thesis
    by (simp add: image_int_atLeastLessThan)
qed

lemma ends_distinct:
  "read_end f a = read_end f b \<Longrightarrow> a = b"
  "write_end f a = write_end f b \<Longrightarrow> a = b"
  "read_end f a \<noteq> write_end f b"
  by (simp_all add: read_end_def write_end_def) presburger

lemma length_concat_pairs: "length (concat (map (\<lambda>j. [a j, b j]) js)) = 2 * length js"
  by (induction js) simp_all

lemma set_concat_pairs: "set (concat (map (\<lambda>j. [a j, b j]) js)) = (\<Union>j\<in>set js. {a j, b j})"
  by (induction js) auto

lemma nth_concat_pairs:
  "i < length js \<Longrightarrow>
   concat (map (\<lambda>j. [a j, b j]) js) ! (2 * i) = a (js ! i) \<and>
   concat (map (\<lambda>j. [a j, b j]) js) ! (2 * i + 1) = b (js ! i)"
proof (induction js arbitrary: i)
  case Nil
  then show ?case by simp
next
  case (Cons j js)
  then show ?case by (cases i) simp_all
qed

lemma dims_set: "0 \<le> n \<Longrightarrow> set (map int [0..<nat n]) = {0..<n}"
  by (simp add: image_int_atLeastLessThan)

lemma own_ne_nb:
  assumes "1 \<le> n" "0 \<le> v" "v < 2 ^ nat n" "j \<in> {0..<n}" "j' \<in> {0..<n}"
  shows "v * n + j \<noteq> (v XOR 2 ^ nat j') * n + j'"
proof
  assume "v * n + j = (v XOR 2 ^ nat j') * n + j'"
  with assms(4,5) have "v = v XOR 2 ^ nat j'"
    using index_inj [of j n j' v "v XOR 2 ^ nat j'"] by simp
  moreover have "nat j' < nat n" using assms(5) by simp
  from xor_pow_bounds(3) [OF assms(2,3) this] have "v XOR 2 ^ nat j' \<noteq> v" .
  ultimately show False by simp
qed

lemma closed_by_index:
  "(\<Union>p\<in>{p \<in> (\<lambda>i. (r i, w i)) ` K. fst p \<notin> A \<and> snd p \<notin> A}. {fst p, snd p}) =
   (\<Union>i\<in>{i \<in> K. r i \<notin> A \<and> w i \<notin> A}. {r i, w i})"
  by auto

lemma child_setup_result:
  assumes n: "1 \<le> n" "n * 2 ^ nat n < (2::int) ^ 31"
    and cr: "createPipes n (s0, k) = Inr (s, k')"
    and v: "0 \<le> v" "v < 2 ^ nat n"
    and fresh: "\<forall>fd\<in>set (parent_fds s0). fd < next_fd k"
  shows "\<exists>c. child_setup n v s = Inr c \<and>
           connectedPipes c =
             concat (map (\<lambda>j. [read_end (next_fd k) (v * n + j),
                                  write_end (next_fd k) ((v XOR 2 ^ nat j) * n + j)])
                      (map int [0..<nat n])) \<and>
           set (open_fds c) = set (parent_fds s0) \<union> set (connectedPipes c)"
proof -
  let ?f = "next_fd k"
  let ?P = "nat n * 2 ^ nat n"
  let ?T = "table_of ?f ?P"
  let ?own = "\<lambda>j. v * n + j"
  let ?nb = "\<lambda>j. (v XOR 2 ^ nat j) * n + j"
  let ?js = "map int [0..<nat n]"
  let ?K = "{0..<int ?P}"
  let ?J = "{0..<n}"
  let ?cp = "concat (map (\<lambda>j. [read_end ?f (?own j), write_end ?f (?nb j)]) ?js)"
  note tab = createPipes_table [OF n cr]
  from n have n0: "0 \<le> n" by simp
  have n31: "n < 31" using dim_small [OF n] by simp
  have js: "\<forall>j\<in>set ?js. 0 \<le> j \<and> j < n" by auto
  from connect_loop_result [OF n v js, of ?f "\<lparr>connectedPipes = [], open_fds = parent_fds s\<rparr>"]
  obtain c1 where c1: "connect_loop n v ?T ?js \<lparr>connectedPipes = [], open_fds = parent_fds s\<rparr> = Inr c1"
    and cp1: "connectedPipes c1 = ?cp"
    and op1: "set (open_fds c1) = set (parent_fds s) -
       (\<Union>j\<in>set ?js. {write_end ?f (?own j), read_end ?f (?nb j)})"
    by auto
  have cs: "child_setup n v s = Inr (sweep n ?T c1)"
    by (simp add: child_setup_def tab(2) c1)
  have len: "length ?cp = 2 * nat n"
    by (subst length_concat_pairs) simp
  have cps: "set ?cp = (\<Union>j\<in>?J. {read_end ?f (?own j), write_end ?f (?nb j)})"
    by (simp only: set_concat_pairs dims_set [OF n0])
  have Pint: "int ?P = n * 2 ^ nat n" using n0 by simp
  have ownK: "?own j \<in> ?K" if "j \<in> ?J" for j
    using that index_bound [of j n v "2 ^ nat n"] v by (simp add: Pint mult.commute)
  have nbK: "?nb j \<in> ?K" if "j \<in> ?J" for j
  proof -
    from that have "nat j < nat n" by simp
    from xor_pow_bounds(1,2) [OF v this] that
    show ?thesis
      using index_bound [of j n "v XOR 2 ^ nat j" "2 ^ nat n"] by (simp add: Pint mult.commute)
  qed
  have S0: "x \<noteq> read_end ?f i \<and> x \<noteq> write_end ?f i" if "x \<in> set (parent_fds s0)" "i \<in> ?K" for x i
    using that fresh by (auto simp: read_end_def write_end_def)
  have parent: "set (parent_fds s) = set (parent_fds s0) \<union> read_end ?f ` ?K \<union> write_end ?f ` ?K"
    by (simp add: tab(3) tab(2) set_table_of image_image)
  have closed: "(\<Union>p\<in>{p \<in> set ?T. needClose n ?cp p}. {fst p, snd p}) =
      (\<Union>i\<in>{i \<in> ?K. read_end ?f i \<notin> set ?cp \<and> write_end ?f i \<notin> set ?cp}.
          {read_end ?f i, write_end ?f i})"
    by (simp only: needClose_all [OF n0 n31 len] set_table_of closed_by_index)
  have "set (open_fds (sweep n ?T c1)) =
      ((set (parent_fds s0) \<union> read_end ?f ` ?K \<union> write_end ?f ` ?K)
        - (\<Union>j\<in>?J. {write_end ?f (?own j), read_end ?f (?nb j)}))
        - (\<Union>i\<in>{i \<in> ?K. read_end ?f i \<notin> set ?cp \<and> write_end ?f i \<notin> set ?cp}.
             {read_end ?f i, write_end ?f i})"
    by (simp only: set_sweep cp1 op1 parent closed dims_set [OF n0])
  also have "\<dots> = set (parent_fds s0) \<union> set ?cp"
    by (rule sweep_sets [where rd = "read_end ?f" and wr = "write_end ?f" and own = ?own and nb = ?nb
          and J = ?J and K = ?K, OF ends_distinct(1) ends_distinct(2) ends_distinct(3) S0 ownK nbK
          own_ne_nb [OF n(1) v] cps])
  finally have "set (open_fds (sweep n ?T c1)) = set (parent_fds s0) \<union> set ?cp" .
  with cs cp1 show ?thesis
    by (simp add: connectedPipes_sweep)
qed

lemma held_ends:
  assumes n: "1 \<le> n" "n * 2 ^ nat n < (2::int) ^ 31"
    and cr: "createPipes n (s0, k) = Inr (s, k')"
    and v: "0 \<le> v" "v < 2 ^ nat n"
    and fresh: "\<forall>fd\<in>set (parent_fds s0). fd < next_fd k"
    and c: "child_setup n v s = Inr c"
  shows "read_ends_held s c = (\<lambda>j. read_end (next_fd k) (v * n + j)) ` {0..<n}"
    and "write_ends_held s c = (\<lambda>j. write_end (next_fd k) ((v XOR 2 ^ nat j) * n + j)) ` {0..<n}"
proof -
  let ?f = "next_fd k"
  let ?K = "{0..<int (nat n * 2 ^ nat n)}"
  let ?own = "\<lambda>j. v * n + j"
  let ?nb = "\<lambda>j. (v XOR 2 ^ nat j) * n + j"
  from n have n0: "0 \<le> n" by simp
  have Pint: "int (nat n * 2 ^ nat n) = n * 2 ^ nat n" using n0 by simp
  note tab = createPipes_table [OF n cr]
  from child_setup_result [OF n cr v fresh] obtain c' where
    c': "child_setup n v s = Inr c'"
    and cp': "connectedPipes c' = concat (map (\<lambda>j. [read_end ?f (?own j), write_end ?f (?nb j)])
                (map int [0..<nat n]))"
    and op': "set (open_fds c') = set (parent_fds s0) \<union> set (connectedPipes c')"
    by blast
  from c c' have "c' = c" by simp
  with cp' op' have "set (open_fds c) = set (parent_fds s0) \<union>
      set (concat (map (\<lambda>j. [read_end ?f (?own j), write_end ?f (?nb j)]) (map int [0..<nat n])))"
    by simp
  then have op: "set (open_fds c) = set (parent_fds s0) \<union>
      (\<Union>j\<in>{0..<n}. {read_end ?f (?own j), write_end ?f (?nb j)})"
    by (simp only: set_concat_pairs dims_set [OF n0])
  have ownK: "?own j \<in> ?K" if "j \<in> {0..<n}" for j
    using that index_bound [of j n v "2 ^ nat n"] v by (simp add: Pint mult.commute)
  have nbK: "?nb j \<in> ?K" if "j \<in> {0..<n}" for j
  proof -
    from that have "nat j < nat n" by simp
    from xor_pow_bounds(1,2) [OF v this] that
    show ?thesis
      using index_bound [of j n "v XOR 2 ^ nat j" "2 ^ nat n"] by (simp add: Pint mult.commute)
  qed
  have S0: "x \<noteq> read_end ?f i \<and> x \<noteq> write_end ?f i" if "x \<in> set (parent_fds s0)" "i \<in> ?K" for x i
    using that fresh by (auto simp: read_end_def write_end_def)
  have rds: "fst ` set (pipes s) = read_end ?f ` ?K" and wrs: "snd ` set (pipes s) = write_end ?f ` ?K"
    by (simp_all add: tab(2) set_table_of image_image)
  show "read_ends_held s c = (\<lambda>j. read_end ?f (?own j)) ` {0..<n}"
  proof (rule set_eqI, rule iffI)
    fix x assume "x \<in> read_ends_held s c"
    then have x: "x \<in> set (open_fds c)" and "x \<in> read_end ?f ` ?K"
      by (simp_all add: read_ends_held_def rds)
    then obtain i where i: "i \<in> ?K" "x = read_end ?f i" by blast
    from x op consider "x \<in> set (parent_fds s0)"
      | j where "j \<in> {0..<n}" "x = read_end ?f (?own j)"
      | j where "j \<in> {0..<n}" "x = write_end ?f (?nb j)"
      by blast
    then show "x \<in> (\<lambda>j. read_end ?f (?own j)) ` {0..<n}"
    proof cases
      case 1
      with S0 [OF 1 i(1)] i(2) show ?thesis by simp
    next
      case 2
      then show ?thesis by blast
    next
      case 3
      with i(2) ends_distinct(3) [of ?f i "?nb j"] show ?thesis by simp
    qed
  next
    fix x assume "x \<in> (\<lambda>j. read_end ?f (?own j)) ` {0..<n}"
    then obtain j where j: "j \<in> {0..<n}" "x = read_end ?f (?own j)" by auto
    from j have "x \<in> set (open_fds c)" unfolding op by blast
    moreover from ownK [OF j(1)] j(2) have "x \<in> read_end ?f ` ?K" by blast
    ultimately show "x \<in> read_ends_held s c"
      by (simp add: read_ends_held_def rds)
  qed
  show "write_ends_held s c = (\<lambda>j. write_end ?f (?nb j)) ` {0..<n}"
  proof (rule set_eqI, rule iffI)
    fix x assume "x \<in> write_ends_held s c"
    then have x: "x \<in> set (open_fds c)" and "x \<in> write_end ?f ` ?K"
      by (simp_all add: write_ends_held_def wrs)
    then obtain i where i: "i \<in> ?K" "x = write_end ?f i" by blast
    from x op consider "x \<in> set (parent_fds s0)"
      | j where "j \<in> {0..<n}" "x = read_end ?f (?own j)"
      | j where "j \<in> {0..<n}" "x = write_end ?f (?nb j)"
      by blast
    then show "x \<in> (\<lambda>j. write_end ?f (?nb j)) ` {0..<n}"
    proof cases
      case 1
      with S0 [OF 1 i(1)] i(2) show ?thesis by simp
    next
      case 2
      with i(2) ends_distinct(3) [of ?f "?own j" i] show ?thesis by simp
    next
      case 3
      then show ?thesis by blast
    qed
  next
    fix x assume "x \<in> (\<lambda>j. write_end ?f (?nb j)) ` {0..<n}"
    then obtain j where j: "j \<in> {0..<n}" "x = write_end ?f (?nb j)" by auto
    from j have "x \<in> set (open_fds c)" unfolding op by blast
    moreover from nbK [OF j(1)] j(2) have "x \<in> write_end ?f ` ?K" by blast
    ultimately show "x \<in> write_ends_held s c"
      by (simp add: write_ends_held_def wrs)
  qed
qed

lemma distinct_table_of: "distinct (map fst (table_of f m) @ map snd (table_of f m))"
proof -
  have "inj_on (\<lambda>p. read_end f (int p)) {0..<m}" "inj_on (\<lambda>p. write_end f (int p)) {0..<m}"
    by (auto simp: inj_on_def read_end_def write_end_def)
  then have "distinct (map (\<lambda>p. read_end f (int p)) [0..<m])"
    "distinct (map (\<lambda>p. write_end f (int p)) [0..<m])"
    by (simp_all add: distinct_map)
  moreover have "set (map (\<lambda>p. read_end f (int p)) [0..<m]) \<inter>
      set (map (\<lambda>p. write_end f (int p)) [0..<m]) = {}"
    using ends_distinct(3) [of f] by auto
  ultimately show ?thesis
    by (simp add: table_of_def comp_def)
qed

lemma card_held:
  fixes n :: int
  assumes "0 \<le> n"
  shows "card ((\<lambda>j. read_end f (v * n + j)) ` {0..<n}) = nat n"
    and "card ((\<lambda>j. write_end f ((v XOR 2 ^ nat j) * n + j)) ` {0..<n}) = nat n"
proof -
  have "inj_on (\<lambda>j. read_end f (v * n + j)) {0..<n}"
    by (auto simp: inj_on_def dest!: ends_distinct(1))
  then show "card ((\<lambda>j. read_end f (v * n + j)) ` {0..<n}) = nat n"
    by (simp add: card_image)
  have "inj_on (\<lambda>j. write_end f ((v XOR 2 ^ nat j) * n + j)) {0..<n}"
  proof (rule inj_onI)
    fix j j' assume "j \<in> {0..<n}" "j' \<in> {0..<n}"
      "write_end f ((v XOR 2 ^ nat j) * n + j) = write_end f ((v XOR 2 ^ nat j') * n + j')"
    then show "j = j'"
      using index_inj [of j n j' "v XOR 2 ^ nat j" "v XOR 2 ^ nat j'"]
      by (auto dest!: ends_distinct(2))
  qed
  then show "card ((\<lambda>j. write_end f ((v XOR 2 ^ nat j) * n + j)) ` {0..<n}) = nat n"
    by (simp add: card_image)
qed

lemma held_disjoint:
  fixes n :: int
  assumes "v \<noteq> v'"
  shows "(\<lambda>j. read_end f (v * n + j)) ` {0..<n} \<inter> (\<lambda>j. read_end f (v' * n + j)) ` {0..<n} = {}"
    and "(\<lambda>j. write_end f ((v XOR 2 ^ nat j) * n + j)) ` {0..<n} \<inter>
         (\<lambda>j. write_end f ((v' XOR 2 ^ nat j) * n + j)) ` {0..<n} = {}"
proof -
  show "(\<lambda>j. read_end f (v * n + j)) ` {0..<n} \<inter> (\<lambda>j. read_end f (v' * n + j)) ` {0..<n} = {}"
  proof (rule ccontr)
    assume "\<not> ?thesis"
    then obtain x where "x \<in> (\<lambda>j. read_end f (v * n + j)) ` {0..<n}"
      "x \<in> (\<lambda>j. read_end f (v' * n + j)) ` {0..<n}" by blast
    then obtain j j' where jj: "j \<in> {0..<n}" "j' \<in> {0..<n}"
      "read_end f (v * n + j) = read_end f (v' * n + j')" by auto
    from ends_distinct(1) [OF jj(3)] jj(1,2) have "v = v'"
      using index_inj [of j n j' v v'] by simp
    with assms show False by simp
  qed
  show "(\<lambda>j. write_end f ((v XOR 2 ^ nat j) * n + j)) ` {0..<n} \<inter>
         (\<lambda>j. write_end f ((v' XOR 2 ^ nat j) * n + j)) ` {0..<n} = {}"
  proof (rule ccontr)
    assume "\<not> ?thesis"
    then obtain x where "x \<in> (\<lambda>j. write_end f ((v XOR 2 ^ nat j) * n + j)) ` {0..<n}"
      "x \<in> (\<lambda>j. write_end f ((v' XOR 2 ^ nat j) * n + j)) ` {0..<n}" by blast
    then obtain j j' where jj: "j \<in> {0..<n}" "j' \<in> {0..<n}"
      "write_end f ((v XOR 2 ^ nat j) * n + j) = write_end f ((v' XOR 2 ^ nat j') * n + j')" by auto
    from ends_distinct(2) [OF jj(3)] jj(1,2) have "v XOR 2 ^ nat j = v' XOR 2 ^ nat j' \<and> j = j'"
      using index_inj [of j n j' "v XOR 2 ^ nat j" "v' XOR 2 ^ nat j'"] by simp
    then have "v XOR 2 ^ nat j = v' XOR 2 ^ nat j" by auto
    then have "v = v'" by (rule xor_cancel)
    with assms show False by simp
  qed
qed

lemma child_setup_wiring:
  assumes n: "1 \<le> n" "n * 2 ^ nat n < (2::int) ^ 31"
    and cr: "createPipes n (s0, k) = Inr (s, k')"
    and v: "0 \<le> v" "v < 2 ^ nat n"
  shows "\<exists>c. child_setup n v s = Inr c \<and>
           connectedPipes c =
             concat (map (\<lambda>j. [read_end (next_fd k) (v * n + j),
                                  write_end (next_fd k) ((v XOR 2 ^ nat j) * n + j)])
                      (map int [0..<nat n]))"
proof -
  note tab = createPipes_table [OF n cr]
  have js: "\<forall>j\<in>set (map int [0..<nat n]). 0 \<le> j \<and> j < n" by auto
  from connect_loop_result [OF n v js, of "next_fd k" "\<lparr>connectedPipes = [], open_fds = parent_fds s\<rparr>"]
  show ?thesis
    by (auto simp: child_setup_def tab(2) connectedPipes_sweep)
qed

lemma nat_less_of_int: "0 \<le> x \<Longrightarrow> x < int m \<Longrightarrow> nat x < m"
  by simp

text \<open>
  Claim C1, as the code has it. For a dimension \<open>n \<ge> 1\<close> whose number of pipes
  \<open>n * 2 ^ n\<close> fits an \<open>int\<close>, every vertex \<open>v\<close> in \<open>[0, 2 ^ n)\<close> and every
  dimension \<open>j\<close> in \<open>[0, n)\<close>: the pipe at the index \<open>v * n + j\<close> of the table is the
  one whose read end \<open>v\<close> keeps, so \<open>v\<close> receives on it along edge \<open>j\<close>; the pipe at
  the index \<open>neighbour * n + j\<close>, with \<open>neighbour = v XOR (1 << j)\<close>, is the one whose
  write end \<open>v\<close> keeps, so \<open>v\<close> sends on it along edge \<open>j\<close>. (\<open>recv_fd\<close> and
  \<open>send_fd\<close> are the descriptors that \<open>passToken\<close> reads and writes.)
\<close>

theorem channel_directions:
  assumes "1 \<le> n" and "n * 2 ^ nat n < (2::int) ^ 31"
    and "createPipes n (s0, k) = Inr (s, k')"
    and "v < 2 ^ nat n" and "j < nat n"
  shows "\<exists>c. child_setup n (int v) s = Inr c \<and>
           nat (int v * n + int j) < length (pipes s) \<and>
           nat ((int v XOR 2 ^ j) * n + int j) < length (pipes s) \<and>
           recv_fd (connectedPipes c) j = fst (pipes s ! nat (int v * n + int j)) \<and>
           send_fd (connectedPipes c) j = snd (pipes s ! nat ((int v XOR 2 ^ j) * n + int j))"
proof -
  let ?f = "next_fd k"
  let ?P = "nat n * 2 ^ nat n"
  let ?own = "int v * n + int j"
  let ?nb = "(int v XOR 2 ^ j) * n + int j"
  note tab = createPipes_table [OF assms(1-3)]
  from assms(4) have "int v < int (2 ^ nat n)"
    by (simp only: of_nat_less_iff)
  then have v: "0 \<le> int v" "int v < 2 ^ nat n"
    by simp_all
  have j: "0 \<le> int j" "int j < n" using assms(5) by simp_all
  have Pint: "int ?P = n * 2 ^ nat n" using assms(1) by simp
  from xor_pow_bounds(1,2) [OF v assms(5)]
  have x: "0 \<le> int v XOR 2 ^ j" "int v XOR 2 ^ j < 2 ^ nat n" by simp_all
  from index_bound [OF j v] have own0: "0 \<le> ?own" and own1: "?own < int ?P"
    by (simp_all only: Pint mult.commute [of n])
  note own = own0 nat_less_of_int [OF own0 own1]
  from index_bound [OF j x] have nb0: "0 \<le> ?nb" and nb1: "?nb < int ?P"
    by (simp_all only: Pint mult.commute [of n])
  note nb = nb0 nat_less_of_int [OF nb0 nb1]
  from child_setup_wiring [OF assms(1-3) v] obtain c where
    c: "child_setup n (int v) s = Inr c"
    and cp: "connectedPipes c =
      concat (map (\<lambda>j. [read_end ?f (int v * n + j), write_end ?f ((int v XOR 2 ^ nat j) * n + j)])
        (map int [0..<nat n]))"
    by blast
  have len: "j < length (map int [0..<nat n])" using assms(5) by simp
  from nth_concat_pairs [OF len, of "\<lambda>j. read_end ?f (int v * n + j)"
      "\<lambda>j. write_end ?f ((int v XOR 2 ^ nat j) * n + j)"] assms(5)
  have ends: "recv_fd (connectedPipes c) j = read_end ?f ?own"
    "send_fd (connectedPipes c) j = write_end ?f ?nb"
    by (simp_all add: recv_fd_def send_fd_def cp)
  from nth_table_of [OF own(2), of ?f] own(1)
  have t1: "fst (pipes s ! nat ?own) = read_end ?f ?own"
    by (simp add: tab(2))
  from nth_table_of [OF nb(2), of ?f] nb(1)
  have t2: "snd (pipes s ! nat ?nb) = write_end ?f ?nb"
    by (simp add: tab(2))
  from c own(2) nb(2) ends t1 t2 show ?thesis
    by (simp add: tab(2) length_table_of)
qed

theorem channel_directions_witness:
  "(1::int) \<le> 1 \<and> (1::int) * 2 ^ nat 1 < 2 ^ 31 \<and>
   createPipes 1 (globals0, kernel0) = Inr (globals1, kernel0\<lparr>next_fd := 7\<rparr>) \<and>
   (0::nat) < 2 ^ nat 1 \<and> (0::nat) < nat 1 \<and>
   (\<exists>c. child_setup 1 0 globals1 = Inr c \<and>
      recv_fd (connectedPipes c) 0 = 3 \<and> send_fd (connectedPipes c) 0 = 6)"
proof -
  have h1: "(1::int) \<le> 1" and h2: "(1::int) * 2 ^ nat 1 < 2 ^ 31"
    and h4: "(0::nat) < 2 ^ nat 1" and h5: "(0::nat) < nat 1"
    by simp_all
  note h3 = createPipes_one
  from channel_directions [OF h1 h2 h3 h4 h5] h1 h2 h3 h4 h5
  show ?thesis
    by (auto simp: pipes_globals1)
qed

text \<open>
  The claim as the specification words it, with the two directions exchanged, fails for
  the dimension 1 at vertex 0 and edge 0: the descriptor on which vertex 0 sends is no
  end of the pipe at the index \<open>v * n + j = 0\<close>, and the descriptor on which it
  receives is no end of the pipe at the index \<open>neighbour * n + j = 1\<close>.
\<close>

theorem channel_directions_counterexample:
  "(case createPipes 1 (globals0, kernel0) of
      Inr (s, k) \<Rightarrow>
        (case child_setup 1 0 s of
           Inr c \<Rightarrow>
             send_fd (connectedPipes c) 0 \<noteq> fst (pipes s ! 0) \<and>
             send_fd (connectedPipes c) 0 \<noteq> snd (pipes s ! 0) \<and>
             recv_fd (connectedPipes c) 0 \<noteq> fst (pipes s ! 1) \<and>
             recv_fd (connectedPipes c) 0 \<noteq> snd (pipes s ! 1)
         | Inl e \<Rightarrow> False)
    | Inl e \<Rightarrow> False)"
  by (simp add: createPipes_one child_setup_one pipes_globals1 send_fd_def recv_fd_def)

lemma of_nat_pow_less: "v < 2 ^ m \<Longrightarrow> int v < 2 ^ m"
proof -
  assume "v < 2 ^ m"
  then have "int v < int (2 ^ m)" by (simp only: of_nat_less_iff)
  then show ?thesis by simp
qed

text \<open>
  Claim C2, as the code has it. For every dimension \<open>n \<ge> 1\<close> whose number of pipes
  \<open>n * 2 ^ n\<close> fits an \<open>int\<close> (that is \<open>n \<le> 26\<close>), a \<open>createPipes\<close> that succeeds
  creates exactly \<open>n * 2 ^ n\<close> pipes whose \<open>2 * n * 2 ^ n\<close> descriptors are distinct;
  after the child of every vertex has closed what it does not use, it holds exactly
  \<open>n\<close> read ends and \<open>n\<close> write ends, and two distinct vertices hold no read end and
  no write end in common.
\<close>

theorem topology_invariant:
  assumes "1 \<le> n" and "n * 2 ^ nat n < (2::int) ^ 31"
    and "createPipes n (globals0, k) = Inr (s, k')"
    and "3 \<le> next_fd k"
  shows "length (pipes s) = nat n * 2 ^ nat n \<and>
         distinct (map fst (pipes s) @ map snd (pipes s)) \<and>
         (\<forall>v<2 ^ nat n. \<exists>c. child_setup n (int v) s = Inr c \<and>
             card (read_ends_held s c) = nat n \<and> card (write_ends_held s c) = nat n) \<and>
         (\<forall>v<2 ^ nat n. \<forall>v'<2 ^ nat n. v \<noteq> v' \<longrightarrow>
             (\<exists>c c'. child_setup n (int v) s = Inr c \<and> child_setup n (int v') s = Inr c' \<and>
                read_ends_held s c \<inter> read_ends_held s c' = {} \<and>
                write_ends_held s c \<inter> write_ends_held s c' = {}))"
proof -
  let ?f = "next_fd k"
  note n = assms(1,2)
  note cr = assms(3)
  from n have n0: "0 \<le> n" by simp
  note tab = createPipes_table [OF n cr]
  have fresh: "\<forall>fd\<in>set (parent_fds globals0). fd < ?f"
    using assms(4) by (simp add: globals0_def)
  have len: "length (pipes s) = nat n * 2 ^ nat n"
    by (simp add: tab(2) length_table_of)
  have dist: "distinct (map fst (pipes s) @ map snd (pipes s))"
    by (simp only: tab(2) distinct_table_of)
  have held: "\<exists>c. child_setup n (int v) s = Inr c \<and>
      read_ends_held s c = (\<lambda>j. read_end ?f (int v * n + j)) ` {0..<n} \<and>
      write_ends_held s c = (\<lambda>j. write_end ?f ((int v XOR 2 ^ nat j) * n + j)) ` {0..<n}"
    if "v < 2 ^ nat n" for v :: nat
  proof -
    from of_nat_pow_less [OF that] have v: "0 \<le> int v" "int v < 2 ^ nat n" by simp_all
    from child_setup_wiring [OF n cr v] obtain c where c: "child_setup n (int v) s = Inr c"
      by blast
    from held_ends [OF n cr v fresh c] c show ?thesis by blast
  qed
  have one: "\<exists>c. child_setup n (int v) s = Inr c \<and>
      card (read_ends_held s c) = nat n \<and> card (write_ends_held s c) = nat n"
    if "v < 2 ^ nat n" for v :: nat
  proof -
    from held [OF that] obtain c where "child_setup n (int v) s = Inr c"
      "read_ends_held s c = (\<lambda>j. read_end ?f (int v * n + j)) ` {0..<n}"
      "write_ends_held s c = (\<lambda>j. write_end ?f ((int v XOR 2 ^ nat j) * n + j)) ` {0..<n}"
      by blast
    with card_held [OF n0, of ?f "int v"] show ?thesis by simp
  qed
  have two: "\<exists>c c'. child_setup n (int v) s = Inr c \<and> child_setup n (int v') s = Inr c' \<and>
      read_ends_held s c \<inter> read_ends_held s c' = {} \<and>
      write_ends_held s c \<inter> write_ends_held s c' = {}"
    if "v < 2 ^ nat n" "v' < 2 ^ nat n" "v \<noteq> v'" for v v' :: nat
  proof -
    from held [OF that(1)] obtain c where c: "child_setup n (int v) s = Inr c"
      "read_ends_held s c = (\<lambda>j. read_end ?f (int v * n + j)) ` {0..<n}"
      "write_ends_held s c = (\<lambda>j. write_end ?f ((int v XOR 2 ^ nat j) * n + j)) ` {0..<n}"
      by blast
    from held [OF that(2)] obtain c' where c': "child_setup n (int v') s = Inr c'"
      "read_ends_held s c' = (\<lambda>j. read_end ?f (int v' * n + j)) ` {0..<n}"
      "write_ends_held s c' = (\<lambda>j. write_end ?f ((int v' XOR 2 ^ nat j) * n + j)) ` {0..<n}"
      by blast
    from that(3) have ne: "int v \<noteq> int v'" by simp
    have r: "read_ends_held s c \<inter> read_ends_held s c' = {}"
      unfolding c(2) c'(2) by (rule held_disjoint(1) [OF ne])
    have w: "write_ends_held s c \<inter> write_ends_held s c' = {}"
      unfolding c(3) c'(3) by (rule held_disjoint(2) [OF ne])
    show ?thesis
      by (intro exI conjI) (rule c(1) c'(1) r w)+
  qed
  show ?thesis
  proof (intro conjI allI impI)
    show "length (pipes s) = nat n * 2 ^ nat n" by (rule len)
    show "distinct (map fst (pipes s) @ map snd (pipes s))" by (rule dist)
  next
    fix v :: nat assume "v < 2 ^ nat n"
    then show "\<exists>c. child_setup n (int v) s = Inr c \<and>
             card (read_ends_held s c) = nat n \<and> card (write_ends_held s c) = nat n"
      by (rule one)
  next
    fix v v' :: nat assume "v < 2 ^ nat n" "v' < 2 ^ nat n" "v \<noteq> v'"
    then show "\<exists>c c'. child_setup n (int v) s = Inr c \<and> child_setup n (int v') s = Inr c' \<and>
                read_ends_held s c \<inter> read_ends_held s c' = {} \<and>
                write_ends_held s c \<inter> write_ends_held s c' = {}"
      by (rule two)
  qed
qed

theorem topology_invariant_witness:
  "(1::int) \<le> 1 \<and> (1::int) * 2 ^ nat 1 < 2 ^ 31 \<and>
   createPipes 1 (globals0, kernel0) = Inr (globals1, kernel0\<lparr>next_fd := 7\<rparr>) \<and>
   3 \<le> next_fd kernel0 \<and>
   length (pipes globals1) = 2 \<and>
   (\<exists>c. child_setup 1 0 globals1 = Inr c \<and>
      card (read_ends_held globals1 c) = 1 \<and> card (write_ends_held globals1 c) = 1) \<and>
   (\<exists>c. child_setup 1 1 globals1 = Inr c \<and>
      card (read_ends_held globals1 c) = 1 \<and> card (write_ends_held globals1 c) = 1)"
proof -
  have h1: "(1::int) \<le> 1" and h2: "(1::int) * 2 ^ nat 1 < 2 ^ 31"
    and h4: "3 \<le> next_fd kernel0"
    by (simp_all add: kernel0_def)
  note h3 = createPipes_one
  from topology_invariant [OF h1 h2 h3 h4]
  have len: "length (pipes globals1) = nat 1 * 2 ^ nat 1"
    and all: "\<forall>v<2 ^ nat 1. \<exists>c. child_setup 1 (int v) globals1 = Inr c \<and>
             card (read_ends_held globals1 c) = nat 1 \<and> card (write_ends_held globals1 c) = nat 1"
    by blast+
  from all [rule_format, of 0] all [rule_format, of 1]
  have "\<exists>c. child_setup 1 0 globals1 = Inr c \<and>
      card (read_ends_held globals1 c) = 1 \<and> card (write_ends_held globals1 c) = 1"
    and "\<exists>c. child_setup 1 1 globals1 = Inr c \<and>
      card (read_ends_held globals1 c) = 1 \<and> card (write_ends_held globals1 c) = 1"
    by simp_all
  with len h1 h2 h3 h4 show ?thesis
    by simp
qed

lemma createPipes_27:
  "createPipes 27 (globals0, kernel0) = Inr (globals0\<lparr>nbPipes := - 671088640, pipes := []\<rparr>, kernel0)"
  by (simp add: createPipes_def shl32_def wrap32_def Let_def)

lemma child_setup_27:
  "child_setup 27 0 (globals0\<lparr>nbPipes := - 671088640, pipes := []\<rparr>) = Inl OutOfBounds"
proof -
  have "map int [0..<nat 27] = 0 # map int [Suc 0..<27]"
    by (simp add: upt_conv_Cons)
  then show ?thesis
    by (simp add: child_setup_def pipe_at_def wrap32_def del: upt_Suc)
qed

text \<open>
  The claim as the specification words it, for every \<open>n \<ge> 1\<close>, fails for the dimension
  27: \<open>(1 << 27) * 27\<close> does not fit an \<open>int\<close>, \<open>nbPipes\<close> wraps to a negative value,
  the loop of \<open>createPipes\<close> creates no pipe, and the child of vertex 0 reads outside
  the empty table.
\<close>

theorem topology_invariant_counterexample:
  "(case createPipes 27 (globals0, kernel0) of
      Inr (s, k) \<Rightarrow>
        nbPipes s = - 671088640 \<and> pipes s = [] \<and>
        length (pipes s) \<noteq> 27 * 2 ^ 27 \<and>
        child_setup 27 0 s = Inl OutOfBounds
    | Inl e \<Rightarrow> False)"
  by (simp add: createPipes_27 child_setup_27)

subsection \<open>The token is one, and it only grows\<close>

lemma quiet_iff: "q = quiet \<longleftrightarrow> (\<forall>fd. q fd = [])"
  by (auto simp: quiet_def)

lemma drain_nothing:
  "drain cp js rs q t = (res, q') \<Longrightarrow> \<forall>fd. q fd = [] \<Longrightarrow>
   q' = q \<and> (\<forall>t'. res = Inr t' \<longrightarrow> t' = t \<and> \<not> list_ex (\<lambda>i. recv_fd cp i \<in> set rs) js)"
  by (induction js arbitrary: t) (auto split: if_splits)

lemma drain_single:
  assumes "drain cp js rs q t = (res, q')" and "\<forall>fd. fd \<noteq> r \<longrightarrow> q fd = []" and "q r = [m]"
  shows "(q' = quiet \<and> (\<forall>t'. res = Inr t' \<longrightarrow> t' = m)) \<or>
         (q' = q \<and> (\<forall>t'. res = Inr t' \<longrightarrow> t' = t \<and> \<not> list_ex (\<lambda>i. recv_fd cp i \<in> set rs) js))"
  using assms(1)
proof (induction js arbitrary: t)
  case Nil
  then show ?case by auto
next
  case (Cons i js)
  show ?case
  proof (cases "recv_fd cp i \<in> set rs")
    case False
    with Cons.prems have "drain cp js rs q t = (res, q')" by simp
    from Cons.IH [OF this] False show ?thesis by simp
  next
    case True
    show ?thesis
    proof (cases "recv_fd cp i = r")
      case same: True
      let ?q = "q(r := [])"
      from same True Cons.prems assms(3) have d: "drain cp js rs ?q m = (res, q')"
        by simp
      from assms(2) have e: "\<forall>fd. ?q fd = []" by simp
      from drain_nothing [OF d e] e have "q' = quiet" "\<forall>t'. res = Inr t' \<longrightarrow> t' = m"
        by (simp_all add: quiet_iff)
      then show ?thesis by simp
    next
      case False
      with assms(2) have "q (recv_fd cp i) = []" by simp
      with True Cons.prems show ?thesis by auto
    qed
  qed
qed

lemma drain_quiet:
  "drain cp js rs quiet t = (res, q') \<Longrightarrow>
   q' = quiet \<and> (\<forall>t'. res = Inr t' \<longrightarrow> t' = t \<and> \<not> list_ex (\<lambda>i. recv_fd cp i \<in> set rs) js)"
  using drain_nothing [of cp js rs quiet t res q'] by (simp add: quiet_def)

lemma drain_one:
  "drain cp js rs (quiet(r := [m])) t = (res, q') \<Longrightarrow>
   (q' = quiet \<and> (\<forall>t'. res = Inr t' \<longrightarrow> t' = m)) \<or>
   (q' = quiet(r := [m]) \<and>
    (\<forall>t'. res = Inr t' \<longrightarrow> t' = t \<and> \<not> list_ex (\<lambda>i. recv_fd cp i \<in> set rs) js))"
  using drain_single [of cp js rs "quiet(r := [m])" t res q' r m] by (simp add: quiet_def)

lemma write_sys_appends:
  "write_sys ps q fd t = Some q' \<Longrightarrow> \<exists>r. q' = q(r := q r @ [t])"
  by (auto simp: write_sys_def split: option.splits)

lemma round_cases:
  assumes "passToken_round cp n ps rs rnd now (w, q) = (w', q')"
    and "q = quiet \<or> q = quiet(r := [m])"
  shows "(logfile w' = logfile w \<and> token w' = token w \<and> (q' = q \<or> q' = quiet)) \<or>
         (q = quiet(r := [m]) \<and> token w' = wrap32 (m + 1) \<and>
          (\<exists>l. logfile w' = logfile w @ [l] \<and> logged l = wrap32 (m + 1)) \<and>
          (q' = quiet \<or> (\<exists>r'. q' = quiet(r' := [wrap32 (m + 1)]))))"
proof (cases "list_ex (\<lambda>i. recv_fd cp i \<in> set rs) [0..<nat n]")
  case False
  with assms(1) show ?thesis by (auto simp: passToken_round_def)
next
  case ex: True
  obtain res q1 where d: "drain cp [0..<nat n] rs q (token w) = (res, q1)"
    by (cases "drain cp [0..<nat n] rs q (token w)")
  show ?thesis
  proof (cases res)
    case (Inl e)
    with assms(1) ex d have w': "w' = w\<lparr>pc := Dead e\<rparr>" "q' = q1"
      by (simp_all add: passToken_round_def)
    from assms(2) d drain_quiet [of cp "[0..<nat n]" rs "token w" res q1]
      drain_one [of cp "[0..<nat n]" rs r m "token w" res q1]
    have "q1 = q \<or> q1 = quiet" by auto
    with w' show ?thesis by simp
  next
    case (Inr t)
    from assms(2) d Inr ex drain_quiet [of cp "[0..<nat n]" rs "token w" res q1]
      drain_one [of cp "[0..<nat n]" rs r m "token w" res q1]
    have q: "q = quiet(r := [m])" and q1: "q1 = quiet" and t: "t = m"
      by auto
    from round_token [OF d [unfolded Inr] ex assms(1)] t
    have tok: "token w' = wrap32 (m + 1)"
      "\<exists>l. logfile w' = logfile w @ [l] \<and> logged l = wrap32 (m + 1)"
      by simp_all
    from assms(1) ex d Inr q1 t have "q' = quiet \<or> (\<exists>r'. q' = quiet(r' := [wrap32 (m + 1)]))"
      by (auto simp: passToken_round_def Let_def quiet_def
          split: sum.splits option.splits if_splits dest!: write_sys_appends)
    with q tok show ?thesis by simp
  qed
qed

lemma round_pc:
  "passToken_round cp n ps rs rnd now (w, q) = (w', q') \<Longrightarrow> pc w = Waiting \<Longrightarrow> pc w' \<noteq> NotStarted"
  by (auto simp: passToken_round_def Let_def split: sum.splits option.splits if_splits prod.splits)

lemma start_cases:
  assumes "passToken_start ident cp n ps ok rnd now q = (w', q')"
  shows "pc w' \<noteq> NotStarted \<and>
         ((token w' = 0 \<and> logfile w' = [] \<and> q' = q \<and> (ident = 0 \<longrightarrow> \<not> ok \<or> n < 0)) \<or>
          (ident = 0 \<and> token w' = 1 \<and> (logfile w' = [] \<or> logfile w' = [Seed 1]) \<and>
           (q' = q \<or> (\<exists>r. q' = q(r := q r @ [1])))))"
  using assms
  by (auto simp: passToken_start_def worker0_def wrap32_def Let_def intToBinary_def
      split: sum.splits option.splits if_splits dest!: write_sys_appends)

lemma invariant_update:
  assumes inv: "token_invariant B c"
    and w: "sorted_wrt (<) (map logged (logfile w'))"
      "\<forall>l\<in>set (logfile w'). logged l \<le> token w'" "0 \<le> token w'" "token w' \<le> B'"
    and B: "B \<le> B'"
    and q: "q' = quiet \<or>
        (\<exists>r m. q' = quiet(r := [m]) \<and> token w' \<le> m \<and>
           (\<forall>u. u \<noteq> v \<longrightarrow> token (workers c u) \<le> m) \<and> m \<le> B')"
    and ns: "pc (if v = 0 then w' else workers c 0) = NotStarted \<longrightarrow>
        q' = quiet \<and> token w' = 0 \<and> (\<forall>u. u \<noteq> v \<longrightarrow> token (workers c u) = 0)"
  shows "token_invariant B' (c\<lparr>workers := (workers c)(v := w'), inflight := q'\<rparr>)"
proof -
  from inv have old: "\<And>u. sorted_wrt (<) (map logged (logfile (workers c u)))"
    "\<And>u. \<forall>l\<in>set (logfile (workers c u)). logged l \<le> token (workers c u)"
    "\<And>u. 0 \<le> token (workers c u)" "\<And>u. token (workers c u) \<le> B"
    by (simp_all add: token_invariant_def)
  have a: "sorted_wrt (<) (map logged (logfile (((workers c)(v := w')) u))) \<and>
          (\<forall>l\<in>set (logfile (((workers c)(v := w')) u)). logged l \<le> token (((workers c)(v := w')) u)) \<and>
          0 \<le> token (((workers c)(v := w')) u) \<and> token (((workers c)(v := w')) u) \<le> B'" for u
  proof (cases "u = v")
    case True
    with w show ?thesis by simp
  next
    case False
    with old [of u] B show ?thesis by simp
  qed
  have b: "q' = quiet \<or>
      (\<exists>r m. q' = quiet(r := [m]) \<and> (\<forall>u. token (((workers c)(v := w')) u) \<le> m) \<and> m \<le> B')"
    using q by auto
  have c: "pc (((workers c)(v := w')) 0) = NotStarted \<longrightarrow>
      q' = quiet \<and> (\<forall>u. token (((workers c)(v := w')) u) = 0)"
    using ns by auto
  from a b c show ?thesis
    by (simp add: token_invariant_def)
qed

lemma wrap32_succ: "0 \<le> m \<Longrightarrow> m < 2 ^ 31 - 1 \<Longrightarrow> wrap32 (m + 1) = m + 1"
  by (rule wrap32_id) simp_all

lemma quiet_ne: "quiet \<noteq> quiet(r := [m])"
proof
  assume "quiet = quiet(r := [m])"
  then have "quiet r = (quiet(r := [m])) r" by simp
  then show False by (simp add: quiet_def)
qed

lemma step_invariant:
  assumes step: "net_step c ev = Some c'" and inv: "token_invariant B c"
    and B: "0 \<le> B" "B < 2 ^ 31 - 1"
  shows "token_invariant (B + 1) c'"
proof -
  from inv have old: "\<And>u. sorted_wrt (<) (map logged (logfile (workers c u)))"
    "\<And>u. \<forall>l\<in>set (logfile (workers c u)). logged l \<le> token (workers c u)"
    "\<And>u. 0 \<le> token (workers c u)" "\<And>u. token (workers c u) \<le> B"
    and fl: "inflight c = quiet \<or>
      (\<exists>r m. inflight c = quiet(r := [m]) \<and> (\<forall>u. token (workers c u) \<le> m) \<and> m \<le> B)"
    and ns: "pc (workers c 0) = NotStarted \<Longrightarrow> inflight c = quiet \<and> (\<forall>u. token (workers c u) = 0)"
    by (simp_all add: token_invariant_def)
  show ?thesis
  proof (cases ev)
    case (Enter v ok rnd now)
    obtain w' q' where st: "passToken_start (int v) (wiring c v) (dim c) (table c) ok rnd now (inflight c) = (w', q')"
      by (cases "passToken_start (int v) (wiring c v) (dim c) (table c) ok rnd now (inflight c)")
    from step Enter st have pcv: "pc (workers c v) = NotStarted"
      and c': "c' = c\<lparr>workers := (workers c)(v := w'), inflight := q'\<rparr>"
      by (auto simp: net_step_def split: if_splits)
    from start_cases [OF st] have pcw: "pc w' \<noteq> NotStarted"
      and cases: "(token w' = 0 \<and> logfile w' = [] \<and> q' = inflight c) \<or>
          (int v = 0 \<and> token w' = 1 \<and> (logfile w' = [] \<or> logfile w' = [Seed 1]) \<and>
           (q' = inflight c \<or> (\<exists>r. q' = (inflight c)(r := inflight c r @ [1]))))"
      by auto
    from cases show ?thesis
    proof
      assume A: "token w' = 0 \<and> logfile w' = [] \<and> q' = inflight c"
      have q: "q' = quiet \<or>
        (\<exists>r m. q' = quiet(r := [m]) \<and> token w' \<le> m \<and>
           (\<forall>u. u \<noteq> v \<longrightarrow> token (workers c u) \<le> m) \<and> m \<le> B + 1)"
      proof (cases "inflight c = quiet")
        case True
        with A show ?thesis by simp
      next
        case False
        with fl obtain r m where rm: "inflight c = quiet(r := [m])"
          "\<forall>u. token (workers c u) \<le> m" "m \<le> B" by blast
        from rm(2) old(3) [of v] have "0 \<le> m" by (metis order_trans)
        with A rm have "q' = quiet(r := [m]) \<and> token w' \<le> m \<and>
           (\<forall>u. u \<noteq> v \<longrightarrow> token (workers c u) \<le> m) \<and> m \<le> B + 1"
          by simp
        then show ?thesis by blast
      qed
      have n: "pc (if v = 0 then w' else workers c 0) = NotStarted \<longrightarrow>
        q' = quiet \<and> token w' = 0 \<and> (\<forall>u. u \<noteq> v \<longrightarrow> token (workers c u) = 0)"
        using pcw A ns by auto
      from A B have w: "sorted_wrt (<) (map logged (logfile w'))"
        "\<forall>l\<in>set (logfile w'). logged l \<le> token w'" "0 \<le> token w'" "token w' \<le> B + 1"
        by simp_all
      show ?thesis unfolding c'
        by (rule invariant_update [OF inv w _ q n]) simp
    next
      assume Bc: "int v = 0 \<and> token w' = 1 \<and> (logfile w' = [] \<or> logfile w' = [Seed 1]) \<and>
           (q' = inflight c \<or> (\<exists>r. q' = (inflight c)(r := inflight c r @ [1])))"
      then have v0: "v = 0" by simp
      with pcv ns have qu: "inflight c = quiet" and zero: "\<forall>u. token (workers c u) = 0" by simp_all
      from Bc qu have "q' = quiet \<or> (\<exists>r. q' = quiet(r := [1]))"
        by (auto simp: quiet_def)
      then have q: "q' = quiet \<or>
        (\<exists>r m. q' = quiet(r := [m]) \<and> token w' \<le> m \<and>
           (\<forall>u. u \<noteq> v \<longrightarrow> token (workers c u) \<le> m) \<and> m \<le> B + 1)"
      proof
        assume "q' = quiet"
        then show ?thesis by simp
      next
        assume "\<exists>r. q' = quiet(r := [1])"
        then obtain r where "q' = quiet(r := [1])" by blast
        with Bc zero B have "q' = quiet(r := [1]) \<and> token w' \<le> 1 \<and>
           (\<forall>u. u \<noteq> v \<longrightarrow> token (workers c u) \<le> 1) \<and> 1 \<le> B + 1"
          by simp
        then show ?thesis by blast
      qed
      have n: "pc (if v = 0 then w' else workers c 0) = NotStarted \<longrightarrow>
        q' = quiet \<and> token w' = 0 \<and> (\<forall>u. u \<noteq> v \<longrightarrow> token (workers c u) = 0)"
        using pcw v0 by simp
      from Bc B have w: "sorted_wrt (<) (map logged (logfile w'))"
        "\<forall>l\<in>set (logfile w'). logged l \<le> token w'" "0 \<le> token w'" "token w' \<le> B + 1"
        by auto
      show ?thesis unfolding c'
        by (rule invariant_update [OF inv w _ q n]) simp
    qed
  next
    case (Turn v rs rnd now)
    obtain w' q' where rd: "passToken_round (wiring c v) (dim c) (table c) rs rnd now
        (workers c v, inflight c) = (w', q')"
      by (cases "passToken_round (wiring c v) (dim c) (table c) rs rnd now (workers c v, inflight c)")
    from step Turn rd have pcv: "pc (workers c v) = Waiting"
      and c': "c' = c\<lparr>workers := (workers c)(v := w'), inflight := q'\<rparr>"
      by (auto simp: net_step_def split: if_splits)
    from round_pc [OF rd pcv] have pcw: "pc w' \<noteq> NotStarted" .
    from pcv have vns: "v = 0 \<Longrightarrow> pc (workers c 0) \<noteq> NotStarted" by auto
    obtain r m where fl': "inflight c = quiet \<or>
        (inflight c = quiet(r := [m]) \<and> (\<forall>u. token (workers c u) \<le> m) \<and> m \<le> B)"
      using fl by blast
    then have qq: "inflight c = quiet \<or> inflight c = quiet(r := [m])" by blast
    from round_cases [OF rd qq]
    show ?thesis
    proof
      assume A: "logfile w' = logfile (workers c v) \<and> token w' = token (workers c v) \<and>
          (q' = inflight c \<or> q' = quiet)"
      from A old [of v] B have w: "sorted_wrt (<) (map logged (logfile w'))"
        "\<forall>l\<in>set (logfile w'). logged l \<le> token w'" "0 \<le> token w'" "token w' \<le> B + 1"
        by simp_all
      have q: "q' = quiet \<or>
        (\<exists>r m. q' = quiet(r := [m]) \<and> token w' \<le> m \<and>
           (\<forall>u. u \<noteq> v \<longrightarrow> token (workers c u) \<le> m) \<and> m \<le> B + 1)"
      proof (cases "q' = quiet")
        case True
        then show ?thesis by simp
      next
        case False
        with A fl' have "q' = quiet(r := [m])" "\<forall>u. token (workers c u) \<le> m" "m \<le> B"
          by auto
        with A have "q' = quiet(r := [m]) \<and> token w' \<le> m \<and>
           (\<forall>u. u \<noteq> v \<longrightarrow> token (workers c u) \<le> m) \<and> m \<le> B + 1"
          by simp
        then show ?thesis by blast
      qed
      have n: "pc (if v = 0 then w' else workers c 0) = NotStarted \<longrightarrow>
        q' = quiet \<and> token w' = 0 \<and> (\<forall>u. u \<noteq> v \<longrightarrow> token (workers c u) = 0)"
        using pcw A ns by auto
      show ?thesis unfolding c'
        by (rule invariant_update [OF inv w _ q n]) simp
    next
      assume Bc: "inflight c = quiet(r := [m]) \<and> token w' = wrap32 (m + 1) \<and>
          (\<exists>l. logfile w' = logfile (workers c v) @ [l] \<and> logged l = wrap32 (m + 1)) \<and>
          (q' = quiet \<or> (\<exists>r'. q' = quiet(r' := [wrap32 (m + 1)])))"
      with fl' quiet_ne [of r m] have tm: "\<forall>u. token (workers c u) \<le> m" and mB: "m \<le> B"
        by auto
      from tm old(3) [of v] have m0: "0 \<le> m" by (metis order_trans)
      from m0 mB B have ws: "wrap32 (m + 1) = m + 1"
        by (intro wrap32_succ) simp_all
      from Bc ws obtain l where tok: "token w' = m + 1"
        and lg: "logfile w' = logfile (workers c v) @ [l]" "logged l = m + 1"
        by auto
      from old(2) [of v] tm have below: "\<forall>x\<in>set (logfile (workers c v)). logged x < m + 1"
        by (metis add.commute add_strict_increasing2 le_less_trans less_add_one linorder_not_less order_trans zero_less_one)
      from old(1) [of v] below lg have s: "sorted_wrt (<) (map logged (logfile w'))"
        by (simp add: sorted_wrt_append)
      from below lg tok have le: "\<forall>l\<in>set (logfile w'). logged l \<le> token w'"
        by auto
      from tok m0 mB have tb: "0 \<le> token w'" "token w' \<le> B + 1" by simp_all
      from Bc ws have "q' = quiet \<or> (\<exists>r'. q' = quiet(r' := [m + 1]))" by simp
      then have q: "q' = quiet \<or>
        (\<exists>r m. q' = quiet(r := [m]) \<and> token w' \<le> m \<and>
           (\<forall>u. u \<noteq> v \<longrightarrow> token (workers c u) \<le> m) \<and> m \<le> B + 1)"
      proof
        assume "q' = quiet"
        then show ?thesis by simp
      next
        assume "\<exists>r'. q' = quiet(r' := [m + 1])"
        then obtain r' where "q' = quiet(r' := [m + 1])" by blast
        moreover have "\<forall>u. u \<noteq> v \<longrightarrow> token (workers c u) \<le> m + 1"
          using tm by (metis add.commute add_increasing zero_le_one)
        ultimately have "q' = quiet(r' := [m + 1]) \<and> token w' \<le> m + 1 \<and>
           (\<forall>u. u \<noteq> v \<longrightarrow> token (workers c u) \<le> m + 1) \<and> m + 1 \<le> B + 1"
          using tok mB by simp
        then show ?thesis by blast
      qed
      have n: "pc (if v = 0 then w' else workers c 0) = NotStarted \<longrightarrow>
        q' = quiet \<and> token w' = 0 \<and> (\<forall>u. u \<noteq> v \<longrightarrow> token (workers c u) = 0)"
        using pcw ns Bc quiet_ne [of r m] by auto
      show ?thesis unfolding c'
        by (rule invariant_update [OF inv s le tb _ q n]) simp
    qed
  qed
qed

lemma run_invariant:
  "run c evs = Some c' \<Longrightarrow> token_invariant B c \<Longrightarrow> 0 \<le> B \<Longrightarrow>
   B + int (length evs) \<le> 2 ^ 31 - 1 \<Longrightarrow> token_invariant (B + int (length evs)) c'"
proof (induction evs arbitrary: c B)
  case Nil
  then show ?case by simp
next
  case (Cons ev evs)
  from Cons.prems(1) obtain c1 where s: "net_step c ev = Some c1" and r: "run c1 evs = Some c'"
    by (auto split: option.splits)
  from Cons.prems(4) have B: "B < 2 ^ 31 - 1" by simp
  from step_invariant [OF s Cons.prems(2,3) B] have i: "token_invariant (B + 1) c1" .
  from Cons.prems(3) have b0: "0 \<le> B + 1" by simp
  from Cons.prems(4) have b1: "B + 1 + int (length evs) \<le> 2 ^ 31 - 1" by simp
  from Cons.IH [OF r i b0 b1] show ?case
    by (simp add: add.assoc add.commute)
qed

lemma network_of_invariant: "token_invariant 0 (network_of n s)"
  by (auto simp: token_invariant_def network_of_def worker0_def quiet_def split: sum.splits)

text \<open>
  Claim C4, as the code has it. In every execution of the workers of fewer than
  \<open>2 ^ 31\<close> events (so that no token counter has left the range of an \<open>int\<close>), the
  token values recorded in the log of any single worker are strictly increasing, hence
  non-decreasing. The difference between consecutive entries is not 1 in general: the
  other workers increment the token before it comes back.
\<close>

theorem logs_strictly_increasing:
  assumes "run (network_of n s) evs = Some c" and "int (length evs) < 2 ^ 31"
  shows "sorted_wrt (<) (map logged (logfile (workers c v)))"
proof -
  from assms(2) have "0 + int (length evs) \<le> 2 ^ 31 - 1" by simp
  from run_invariant [OF assms(1) network_of_invariant _ this]
  have "token_invariant (0 + int (length evs)) c" by simp
  then show ?thesis by (simp add: token_invariant_def)
qed

lemma run_four:
  "\<exists>c. run (network_of 1 globals1)
          [Enter 0 True 17 \<lparr>tv_sec = 1000, tv_usec = 5\<rparr>,
           Enter 1 True 4 \<lparr>tv_sec = 1000, tv_usec = 9\<rparr>,
           Turn 1 [5] 33 \<lparr>tv_sec = 1000, tv_usec = 50\<rparr>,
           Turn 0 [3] 7 \<lparr>tv_sec = 1000, tv_usec = 95\<rparr>] = Some c \<and>
     logfile (workers c 0) = [Seed 1, Later 3 90] \<and> logfile (workers c 1) = [First 2]"
  by (simp add: network_of_def child_setup_one net_step_def passToken_start_def
      passToken_round_def intToBinary_def choose_neighbour_def c_rem_one send_fd_def recv_fd_def
      write_sys_def shl32_def wrap32_def worker0_def pipes_globals1 Let_def)

theorem logs_strictly_increasing_witness:
  "\<exists>c. run (network_of 1 globals1)
          [Enter 0 True 17 \<lparr>tv_sec = 1000, tv_usec = 5\<rparr>,
           Enter 1 True 4 \<lparr>tv_sec = 1000, tv_usec = 9\<rparr>,
           Turn 1 [5] 33 \<lparr>tv_sec = 1000, tv_usec = 50\<rparr>,
           Turn 0 [3] 7 \<lparr>tv_sec = 1000, tv_usec = 95\<rparr>] = Some c \<and>
     int (length [Enter 0 True 17 \<lparr>tv_sec = 1000, tv_usec = 5\<rparr>,
           Enter 1 True 4 \<lparr>tv_sec = 1000, tv_usec = 9\<rparr>,
           Turn 1 [5] 33 \<lparr>tv_sec = 1000, tv_usec = 50\<rparr>,
           Turn 0 [3] 7 \<lparr>tv_sec = 1000, tv_usec = 95\<rparr>]) < 2 ^ 31 \<and>
     map logged (logfile (workers c 0)) = [1, 3] \<and>
     sorted_wrt (<) (map logged (logfile (workers c 0)))"
proof -
  let ?evs = "[Enter 0 True 17 \<lparr>tv_sec = 1000, tv_usec = 5\<rparr>,
           Enter 1 True 4 \<lparr>tv_sec = 1000, tv_usec = 9\<rparr>,
           Turn 1 [5] 33 \<lparr>tv_sec = 1000, tv_usec = 50\<rparr>,
           Turn 0 [3] 7 \<lparr>tv_sec = 1000, tv_usec = 95\<rparr>]"
  from run_four obtain c where r: "run (network_of 1 globals1) ?evs = Some c"
    and l: "logfile (workers c 0) = [Seed 1, Later 3 90]"
    by blast
  have len: "int (length ?evs) < 2 ^ 31" by simp
  from logs_strictly_increasing [OF r len, of 0]
  have "sorted_wrt (<) (map logged (logfile (workers c 0)))" .
  with r len l show ?thesis by simp
qed

text \<open>
  The claim as the specification words it fails on the run of the dimension 1 in which
  every turn finds exactly one read end ready: the log of vertex 0 records 1 and then
  3, two consecutive entries that differ by 2.
\<close>

theorem logs_counterexample:
  "(case createPipes 1 (globals0, kernel0) of
      Inr (s, k) \<Rightarrow>
        (case run (network_of 1 s)
                [Enter 0 True 17 \<lparr>tv_sec = 1000, tv_usec = 5\<rparr>,
                 Enter 1 True 4 \<lparr>tv_sec = 1000, tv_usec = 9\<rparr>,
                 Turn 1 [5] 33 \<lparr>tv_sec = 1000, tv_usec = 50\<rparr>,
                 Turn 0 [3] 7 \<lparr>tv_sec = 1000, tv_usec = 95\<rparr>] of
           Some c \<Rightarrow> map logged (logfile (workers c 0)) = [1, 3]
         | None \<Rightarrow> False)
    | Inl e \<Rightarrow> False)"
proof -
  from run_four obtain c where
    "run (network_of 1 globals1)
          [Enter 0 True 17 \<lparr>tv_sec = 1000, tv_usec = 5\<rparr>,
           Enter 1 True 4 \<lparr>tv_sec = 1000, tv_usec = 9\<rparr>,
           Turn 1 [5] 33 \<lparr>tv_sec = 1000, tv_usec = 50\<rparr>,
           Turn 0 [3] 7 \<lparr>tv_sec = 1000, tv_usec = 95\<rparr>] = Some c"
    "logfile (workers c 0) = [Seed 1, Later 3 90]"
    by blast
  then show ?thesis
    by (simp add: createPipes_one)
qed

end
